theory Spec2Isabelle
  imports Main "HOL-Library.Word"
begin

unbundle bit_operations_syntax

section \<open>JavaScript numbers and bitwise operators\<close>

text \<open>
  The TypeScript sources compute with JavaScript numbers. Every number that occurs in the
  modelled functions is an integer far below \<open>2 ^ 53\<close>, where double arithmetic is exact, so
  numbers are modelled as \<open>int\<close>. The bitwise operators \<open>&\<close>, \<open>|\<close>, \<open>^\<close>, \<open>~\<close>
  and \<open>>>\<close> first convert their operands to a signed 32-bit integer (ToInt32) and return a
  signed 32-bit integer; this conversion is written out.
\<close>

type_synonym byte = "8 word"

definition toInt32 :: "int \<Rightarrow> int" where
  "toInt32 x = (x + 2 ^ 31) mod 2 ^ 32 - 2 ^ 31"

definition js_and :: "int \<Rightarrow> int \<Rightarrow> int" where
  "js_and x y = toInt32 x AND toInt32 y"

definition js_or :: "int \<Rightarrow> int \<Rightarrow> int" where
  "js_or x y = toInt32 x OR toInt32 y"

definition js_xor :: "int \<Rightarrow> int \<Rightarrow> int" where
  "js_xor x y = toInt32 x XOR toInt32 y"

definition js_not :: "int \<Rightarrow> int" where
  "js_not x = NOT (toInt32 x)"

text \<open>\<open>x >> k\<close> for \<open>k < 32\<close>: the sign-propagating shift of the 32-bit value.\<close>

definition js_shr :: "int \<Rightarrow> nat \<Rightarrow> int" where
  "js_shr x k = drop_bit k (toInt32 x)"

text \<open>Storing a number into a \<open>Uint8Array\<close> keeps its low eight bits.\<close>

definition toUint8 :: "int \<Rightarrow> byte" where
  "toUint8 x = word_of_int x"

datatype error =
    IntNotSafe
  | IntTooSmall
  | IntTooLarge
  | CannotConvertToIpv4Address
  | CallbackAlreadyAdded
  | WriteInInvalidState
  | ListenInInvalidState
  | ListenOnClientSocket
  | ConnectInInvalidState
  | ConnectOnServerSocket
  | ProcessInInvalidState
  | PacketNeitherFromNorForSocket
  | WriteOnceEstablishedNotEmpty
  | UnknownTcpSocketState

section \<open>utils/endianness.ts\<close>

definition isSafeInteger :: "int \<Rightarrow> bool" where
  "isSafeInteger i \<longleftrightarrow> - (2 ^ 53 - 1) \<le> i \<and> i \<le> 2 ^ 53 - 1"

text \<open>
  JavaScript numbers are doubles. An integer of at most 53 bits is a double; the sum
  \<open>256 ** bytes + int\<close> can be longer, and is then rounded to the nearest double, ties to the
  even significand: with \<open>n\<close> the bit length, to a multiple of \<open>2 ^ (n - 53)\<close>.
\<close>

function bitLength :: "int \<Rightarrow> nat" where
  "bitLength x = (if x \<le> 0 then 0 else Suc (bitLength (x div 2)))"
  by pat_completeness auto
termination
  by (relation "measure nat") auto

declare bitLength.simps [simp del]

definition roundToDouble :: "int \<Rightarrow> int" where
  "roundToDouble x =
     (let n = bitLength (abs x) in
      if n \<le> 53 then x
      else (let u = 2 ^ (n - 53); q = abs x div u; r = abs x mod u;
                q' = (if 2 * r < u then q
                      else if u < 2 * r then q + 1
                      else if even q then q else q + 1)
            in sgn x * (q' * u)))"

text \<open>
  \<open>toBigEndianFromInt\<close>. For 128 bytes or more \<open>256 ** bytes\<close> is \<open>Infinity\<close>: a negative
  \<open>int\<close> becomes \<open>Infinity\<close>, for which the function throws "too large", and no other \<open>int\<close> is
  \<open>>= Infinity\<close>. The quotients \<open>int / 256 ** k\<close> are exact (a division by a power of two,
  or by \<open>Infinity\<close>, which gives 0), and the store into the \<open>Uint8Array\<close> truncates them and
  keeps the low 8 bits.
\<close>

definition toBigEndianFromInt :: "nat \<Rightarrow> int \<Rightarrow> error + byte list" where
  "toBigEndianFromInt bytes i =
     (if \<not> isSafeInteger i then Inl IntNotSafe
      else if i < 0 \<and> 128 \<le> bytes then Inl IntTooLarge
      else let j = (if i < 0 then roundToDouble (256 ^ bytes + i) else i) in
        if j < 0 then Inl IntTooSmall
        else if j \<ge> 256 ^ bytes then Inl IntTooLarge
        else Inr (map (\<lambda>k. toUint8 (j div 256 ^ (bytes - k - 1))) [0..<bytes]))"

section \<open>utils/internet-checksum.ts\<close>

text \<open>
  \<open>internetChecksum\<close> first reduces the bytes to the sum of the big-endian 16-bit words
  (a byte at an even index counts 256 times), then folds the carries with a \<open>while\<close> loop
  that uses the 32-bit operators \<open>&\<close> and \<open>>>\<close>.
\<close>

fun checksum_reduce :: "nat \<Rightarrow> int \<Rightarrow> byte list \<Rightarrow> int" where
  "checksum_reduce index acc [] = acc"
| "checksum_reduce index acc (b # rest) =
     checksum_reduce (index + 1)
       (if index mod 2 = 0 then acc + uint b * 256 else acc + uint b) rest"

function checksum_fold :: "int \<Rightarrow> int" where
  "checksum_fold res =
     (if res > 0xffff then checksum_fold (js_and res 0xffff + js_shr res 16) else res)"
  by pat_completeness auto
termination
proof (relation "measure nat")
  show "wf (measure nat)" by simp
next
  fix res :: int
  assume big: "65535 < res"
  define t where "t = toInt32 res"
  have "t AND mask 16 = take_bit 16 t"
    by (simp add: take_bit_eq_mask)
  then have lo: "t AND 65535 = t mod 65536"
    by (simp add: take_bit_eq_mod mask_eq_exp_minus_1)
  have hi: "drop_bit 16 t = t div 65536"
    by (simp add: drop_bit_eq_div)
  have range: "- (2 ^ 31) \<le> t" "t < 2 ^ 31"
    unfolding t_def toInt32_def by simp_all
  have step: "t mod 65536 + t div 65536 < res"
  proof (cases "res < 2 ^ 31")
    case True
    with big have "t = res"
      unfolding t_def toInt32_def by simp
    moreover from big have "res mod 65536 + res div 65536 < res"
      by presburger
    ultimately show ?thesis by simp
  next
    case False
    have "t mod 65536 < 65536" by simp
    moreover have "t div 65536 < 32768" using range by simp
    ultimately show ?thesis using False by simp
  qed
  have "js_and res 65535 + js_shr res 16 = t mod 65536 + t div 65536"
    using lo hi by (simp add: js_and_def js_shr_def t_def toInt32_def)
  with step big show "(js_and res 65535 + js_shr res 16, res) \<in> measure nat"
    by simp
qed

declare checksum_fold.simps [simp del]

definition internetChecksum :: "byte list \<Rightarrow> int" where
  "internetChecksum data = checksum_fold (checksum_reduce 0 0 data)"

text \<open>
  The checksum field every sender writes (protocols/ipv4.ts, icmp.ts, udp.ts):
  \<open>field = ~checksum\<close>, then the two bytes \<open>field >> 8 & 0xff\<close> and \<open>field & 0xff\<close>.
\<close>

definition checksumFieldBytes :: "int \<Rightarrow> byte list" where
  "checksumFieldBytes field = [toUint8 (js_and (js_shr field 8) 0xff), toUint8 (js_and field 0xff)]"

section \<open>addresses/ip-address.ts and addresses/mac-address.ts\<close>

text \<open>
  An address object holds a \<open>Uint8Array\<close> whose length the constructor checks (four bytes for
  IPv4, six for MAC), so an address is modelled by exactly that many bytes. The constants
  \<open>ZeroAddress\<close> and \<open>BroadcastAddress\<close> are the values their string literals parse to.
\<close>

datatype Ipv4Address = Ipv4Address byte byte byte byte

datatype MacAddress = MacAddress byte byte byte byte byte byte

fun Ipv4Address_bytes :: "Ipv4Address \<Rightarrow> byte list" where
  "Ipv4Address_bytes (Ipv4Address a b c d) = [a, b, c, d]"

fun MacAddress_bytes :: "MacAddress \<Rightarrow> byte list" where
  "MacAddress_bytes (MacAddress a b c d e f) = [a, b, c, d, e, f]"

definition Ipv4Address_ZeroAddress :: Ipv4Address where
  "Ipv4Address_ZeroAddress = Ipv4Address 0 0 0 0"

definition Ipv4Address_BroadcastAddress :: Ipv4Address where
  "Ipv4Address_BroadcastAddress = Ipv4Address 255 255 255 255"

definition MacAddress_BroadcastAddress :: MacAddress where
  "MacAddress_BroadcastAddress = MacAddress 0xff 0xff 0xff 0xff 0xff 0xff"

text \<open>\<open>this.bytes.every((byte, i) => byte === other.bytes[i])\<close>\<close>

definition Ipv4Address_equals :: "Ipv4Address \<Rightarrow> Ipv4Address \<Rightarrow> bool" where
  "Ipv4Address_equals this other =
     list_all (\<lambda>(byte, o_byte). byte = o_byte) (zip (Ipv4Address_bytes this) (Ipv4Address_bytes other))"

definition MacAddress_equals :: "MacAddress \<Rightarrow> MacAddress \<Rightarrow> bool" where
  "MacAddress_equals this other =
     list_all (\<lambda>(byte, o_byte). byte = o_byte) (zip (MacAddress_bytes this) (MacAddress_bytes other))"

definition Ipv4Address_isRecipientOfTarget :: "Ipv4Address \<Rightarrow> Ipv4Address \<Rightarrow> bool" where
  "Ipv4Address_isRecipientOfTarget this targetAddress \<longleftrightarrow>
     Ipv4Address_equals targetAddress Ipv4Address_BroadcastAddress \<or> Ipv4Address_equals targetAddress this"

definition MacAddress_isRecipientOfTarget :: "MacAddress \<Rightarrow> MacAddress \<Rightarrow> bool" where
  "MacAddress_isRecipientOfTarget this targetAddress \<longleftrightarrow>
     MacAddress_equals targetAddress MacAddress_BroadcastAddress \<or> MacAddress_equals targetAddress this"

text \<open>
  \<open>MacAddress.toString\<close>: every byte in lower-case hexadecimal, padded to two digits, joined
  by colons. It is the key of the router's device map.
\<close>

definition hexDigit :: "nat \<Rightarrow> char" where
  "hexDigit n = ''0123456789abcdef'' ! (n mod 16)"

definition byte_toString16_padStart2 :: "byte \<Rightarrow> string" where
  "byte_toString16_padStart2 b =
     (let s = (if unat b < 16 then [hexDigit (unat b)]
               else [hexDigit (unat b div 16), hexDigit (unat b mod 16)])
      in replicate (2 - length s) CHR ''0'' @ s)"

fun join :: "string \<Rightarrow> string list \<Rightarrow> string" where
  "join sep [] = []"
| "join sep [x] = x"
| "join sep (x # y # rest) = x @ sep @ join sep (y # rest)"

definition MacAddress_toString :: "MacAddress \<Rightarrow> string" where
  "MacAddress_toString this = join '':'' (map byte_toString16_padStart2 (MacAddress_bytes this))"

text \<open>\<open>this.bytes.reduce((prev, cur) => prev * 256 + cur, 0)\<close>\<close>

definition Ipv4Address_toInt :: "Ipv4Address \<Rightarrow> int" where
  "Ipv4Address_toInt this = foldl (\<lambda>prev cur. prev * 256 + uint cur) 0 (Ipv4Address_bytes this)"

text \<open>
  \<open>fromInt\<close> divides by 256 in floating point and lets \<open>& 0xff\<close> truncate the quotient; for
  the non-negative integers that pass its range check the truncated quotient is \<open>div\<close>.
\<close>

definition Ipv4Address_fromInt :: "int \<Rightarrow> error + Ipv4Address" where
  "Ipv4Address_fromInt i =
     (if i < 0 \<or> i > 0xffffffff then Inl CannotConvertToIpv4Address
      else Inr (Ipv4Address
        (toUint8 (js_and (i div 256 div 256 div 256) 0xff))
        (toUint8 (js_and (i div 256 div 256) 0xff))
        (toUint8 (js_and (i div 256) 0xff))
        (toUint8 (js_and i 0xff))))"

definition Ipv4Address_fromSignedInt :: "int \<Rightarrow> error + Ipv4Address" where
  "Ipv4Address_fromSignedInt signedInt =
     Ipv4Address_fromInt (if signedInt < 0 then 0xffffffff + signedInt + 1 else signedInt)"

definition Ipv4Address_bitNot :: "Ipv4Address \<Rightarrow> error + Ipv4Address" where
  "Ipv4Address_bitNot this =
     Ipv4Address_fromSignedInt (js_and (js_not (Ipv4Address_toInt this)) 0xffffffff)"

definition Ipv4Address_bitAnd :: "Ipv4Address \<Rightarrow> Ipv4Address \<Rightarrow> error + Ipv4Address" where
  "Ipv4Address_bitAnd this other =
     Ipv4Address_fromSignedInt (js_and (Ipv4Address_toInt this) (Ipv4Address_toInt other))"

definition Ipv4Address_bitOr :: "Ipv4Address \<Rightarrow> Ipv4Address \<Rightarrow> error + Ipv4Address" where
  "Ipv4Address_bitOr this other =
     Ipv4Address_fromSignedInt (js_or (Ipv4Address_toInt this) (Ipv4Address_toInt other))"

definition Ipv4Address_bitXor :: "Ipv4Address \<Rightarrow> Ipv4Address \<Rightarrow> error + Ipv4Address" where
  "Ipv4Address_bitXor this other =
     Ipv4Address_fromSignedInt (js_xor (Ipv4Address_toInt this) (Ipv4Address_toInt other))"

section \<open>The pseudo-header checksums of utils/internet-checksum.ts\<close>

definition pseudoChecksum :: "Ipv4Address \<Rightarrow> Ipv4Address \<Rightarrow> byte list \<Rightarrow> byte \<Rightarrow> error + int" where
  "pseudoChecksum srcIp destIp packetBinary protocol =
     (case toBigEndianFromInt 2 (int (length packetBinary)) of
        Inl e \<Rightarrow> Inl e
      | Inr lengthBytes \<Rightarrow>
          Inr (internetChecksum (Ipv4Address_bytes srcIp @ Ipv4Address_bytes destIp @
                 [0x00, protocol] @ lengthBytes @ packetBinary)))"

definition tcpChecksum :: "Ipv4Address \<Rightarrow> Ipv4Address \<Rightarrow> byte list \<Rightarrow> error + int" where
  "tcpChecksum srcIp destIp tcpPacketBinary = pseudoChecksum srcIp destIp tcpPacketBinary 0x06"

text \<open>An index past the end of the array reads \<open>undefined\<close>, which is not \<open>=== 0x00\<close>.\<close>

definition udpChecksum :: "Ipv4Address \<Rightarrow> Ipv4Address \<Rightarrow> byte list \<Rightarrow> error + int" where
  "udpChecksum srcIp destIp udpPacketBinary =
     (case pseudoChecksum srcIp destIp udpPacketBinary 0x11 of
        Inl e \<Rightarrow> Inl e
      | Inr res \<Rightarrow>
          if 7 < length udpPacketBinary \<and> udpPacketBinary ! 6 = 0x00 \<and> udpPacketBinary ! 7 = 0x00
          then Inr 0 else Inr res)"

section \<open>protocols/udp.ts: the sender\<close>

record Ipv4Data =
  ipv4_srcIp :: Ipv4Address
  ipv4_destIp :: Ipv4Address
  ipv4_dontFragment :: bool
  ipv4_protocol :: int
  ipv4_timeToLive :: int
  ipv4_dscp :: int
  ipv4_ecn :: int
  ipv4_payload :: "byte list"

record UdpData =
  udp_srcIp :: Ipv4Address
  udp_destIp :: Ipv4Address
  udp_srcPort :: int
  udp_destPort :: int
  udp_payload :: "byte list"

text \<open>
  The bytes the \<open>onSendData\<close> listener of \<open>Udp.createHandler\<close> builds: the header with the
  checksum placeholder \<open>0xff, 0xff\<close>, then the checksum field written over bytes 6 and 7.
\<close>

definition Udp_placeholderBytes :: "UdpData \<Rightarrow> error + byte list" where
  "Udp_placeholderBytes data =
     (case toBigEndianFromInt 2 (udp_srcPort data) of
        Inl e \<Rightarrow> Inl e
      | Inr srcPortBytes \<Rightarrow>
          (case toBigEndianFromInt 2 (udp_destPort data) of
             Inl e \<Rightarrow> Inl e
           | Inr destPortBytes \<Rightarrow>
               (case toBigEndianFromInt 2 (int (length (udp_payload data)) + 8) of
                  Inl e \<Rightarrow> Inl e
                | Inr lengthBytes \<Rightarrow>
                    Inr (srcPortBytes @ destPortBytes @ lengthBytes @ [0xff, 0xff] @
                         udp_payload data))))"

definition Udp_onSendData :: "UdpData \<Rightarrow> error + Ipv4Data" where
  "Udp_onSendData data =
     (case Udp_placeholderBytes data of
        Inl e \<Rightarrow> Inl e
      | Inr udpBytes \<Rightarrow>
          (case udpChecksum (udp_srcIp data) (udp_destIp data) udpBytes of
             Inl e \<Rightarrow> Inl e
           | Inr checksum \<Rightarrow>
               (let udpChecksumField = js_not checksum;
                    udpChecksumField = (if udpChecksumField = 0 then 0xffff else udpChecksumField);
                    udpBytes = udpBytes[6 := toUint8 (js_and (js_shr udpChecksumField 8) 0xff)];
                    udpBytes = udpBytes[7 := toUint8 (js_and udpChecksumField 0xff)]
                in Inr \<lparr> ipv4_srcIp = udp_srcIp data, ipv4_destIp = udp_destIp data,
                     ipv4_dontFragment = True, ipv4_protocol = 0x11, ipv4_timeToLive = 64,
                     ipv4_dscp = 0, ipv4_ecn = 0, ipv4_payload = udpBytes \<rparr>)))"

section \<open>routers/router.ts: the device table and IP allocation\<close>

text \<open>
  The router keeps \<open>_addressTable\<close>, a map from \<open>ip.toInt()\<close> to a MAC address, and
  \<open>_devices\<close>, a map from \<open>mac.toString()\<close> to a device. The router registers itself as
  the first device (always confirmed).
\<close>

record Device =
  dev_mac :: MacAddress
  dev_ip :: Ipv4Address
  dev_isConfirmed :: bool

record Router =
  router_mac :: MacAddress
  router_ip :: Ipv4Address
  router_subnetMask :: Ipv4Address
  addressTable :: "int \<rightharpoonup> MacAddress"
  devices :: "string \<rightharpoonup> Device"

definition Router_priv_registerDevice :: "Device \<Rightarrow> Router \<Rightarrow> Router" where
  "Router_priv_registerDevice device this =
     this\<lparr> addressTable := (addressTable this)(Ipv4Address_toInt (dev_ip device) \<mapsto> dev_mac device),
            devices := (devices this)(MacAddress_toString (dev_mac device) \<mapsto> device) \<rparr>"

definition Router_asDevice :: "MacAddress \<Rightarrow> Ipv4Address \<Rightarrow> Device" where
  "Router_asDevice mac ip = \<lparr> dev_mac = mac, dev_ip = ip, dev_isConfirmed = True \<rparr>"

definition Router_new :: "MacAddress \<Rightarrow> Ipv4Address \<Rightarrow> Ipv4Address \<Rightarrow> Router" where
  "Router_new mac ip subnetMask =
     Router_priv_registerDevice (Router_asDevice mac ip)
       \<lparr> router_mac = mac, router_ip = ip, router_subnetMask = subnetMask,
         addressTable = Map.empty, devices = Map.empty \<rparr>"

definition Router_subnet :: "Router \<Rightarrow> error + Ipv4Address" where
  "Router_subnet this = Ipv4Address_bitAnd (router_subnetMask this) (router_ip this)"

definition Router_isIpAssigned :: "Router \<Rightarrow> Ipv4Address \<Rightarrow> bool" where
  "Router_isIpAssigned this ip \<longleftrightarrow> addressTable this (Ipv4Address_toInt ip) \<noteq> None"

text \<open>
  The scan of \<open>_getNextFreeIp\<close>: \<open>curIpInt\<close> runs from 0 while \<open>curIpInt <= 0xffffffff\<close>.
  Outside the subnet it jumps ahead by the integer value of the subnet difference; inside it
  returns the first address that is neither special nor assigned. \<open>None\<close> is the \<open>null\<close>
  returned after the loop.
\<close>

function Router_getNextFreeIp_loop ::
  "Router \<Rightarrow> Ipv4Address list \<Rightarrow> int \<Rightarrow> error + Ipv4Address option" where
  "Router_getNextFreeIp_loop this specialAddresses curIpInt =
     (if curIpInt \<le> 0xffffffff then
        (case Ipv4Address_fromInt curIpInt of
           Inl e \<Rightarrow> Inl e
         | Inr curIp \<Rightarrow>
             (case Router_subnet this of
                Inl e \<Rightarrow> Inl e
              | Inr actualSubnet \<Rightarrow>
                  (case Ipv4Address_bitAnd (router_subnetMask this) curIp of
                     Inl e \<Rightarrow> Inl e
                   | Inr curIpSubnet \<Rightarrow>
                       (case Ipv4Address_bitXor actualSubnet curIpSubnet of
                          Inl e \<Rightarrow> Inl e
                        | Inr subnetDifference \<Rightarrow>
                            if \<not> Ipv4Address_equals subnetDifference Ipv4Address_ZeroAddress
                            then Router_getNextFreeIp_loop this specialAddresses
                                   (curIpInt + Ipv4Address_toInt subnetDifference)
                            else if find (\<lambda>a. Ipv4Address_equals a curIp) specialAddresses = None
                                    \<and> \<not> Router_isIpAssigned this curIp
                            then Inr (Some curIp)
                            else Router_getNextFreeIp_loop this specialAddresses (curIpInt + 1)))))
      else Inr None)"
  by pat_completeness auto
termination
proof (relation "measure (\<lambda>(this, specialAddresses, curIpInt). nat (2 ^ 32 - curIpInt))")
  show "wf (measure (\<lambda>(this, specialAddresses, curIpInt). nat (2 ^ 32 - curIpInt)))"
    by simp
next
  fix this :: Router and specialAddresses :: "Ipv4Address list" and curIpInt :: int
    and subnetDifference :: Ipv4Address
  assume le: "curIpInt \<le> 0xffffffff"
    and ne: "\<not> Ipv4Address_equals subnetDifference Ipv4Address_ZeroAddress"
  obtain a b c d where sd: "subnetDifference = Ipv4Address a b c d"
    by (cases subnetDifference)
  from ne have nz: "a \<noteq> 0 \<or> b \<noteq> 0 \<or> c \<noteq> 0 \<or> d \<noteq> 0"
    by (auto simp: sd Ipv4Address_equals_def Ipv4Address_ZeroAddress_def)
  define A B C D where "A = uint a" and "B = uint b" and "C = uint c" and "D = uint d"
  have nonneg: "0 \<le> A" "0 \<le> B" "0 \<le> C" "0 \<le> D"
    by (simp_all add: A_def B_def C_def D_def)
  from nz have "0 < A \<or> 0 < B \<or> 0 < C \<or> 0 < D"
    by (simp add: less_le uint_0_iff A_def B_def C_def D_def)
  with nonneg have "0 < ((A * 256 + B) * 256 + C) * 256 + D"
    by (simp add: algebra_simps) linarith
  then have "0 < Ipv4Address_toInt subnetDifference"
    by (simp add: sd Ipv4Address_toInt_def A_def B_def C_def D_def)
  with le show "((this, specialAddresses, curIpInt + Ipv4Address_toInt subnetDifference),
                 (this, specialAddresses, curIpInt))
      \<in> measure (\<lambda>(this, specialAddresses, curIpInt). nat (2 ^ 32 - curIpInt))"
    by simp
next
  fix this :: Router and specialAddresses :: "Ipv4Address list" and curIpInt :: int
  assume "curIpInt \<le> 0xffffffff"
  then show "((this, specialAddresses, curIpInt + 1), (this, specialAddresses, curIpInt))
      \<in> measure (\<lambda>(this, specialAddresses, curIpInt). nat (2 ^ 32 - curIpInt))"
    by simp
qed

declare Router_getNextFreeIp_loop.simps [simp del]

definition Router_priv_getNextFreeIp :: "Router \<Rightarrow> error + Ipv4Address option" where
  "Router_priv_getNextFreeIp this =
     (case Router_subnet this of
        Inl e \<Rightarrow> Inl e
      | Inr allBitsZero \<Rightarrow>
          (case Ipv4Address_bitNot (router_subnetMask this) of
             Inl e \<Rightarrow> Inl e
           | Inr notMask \<Rightarrow>
               (case Ipv4Address_bitOr allBitsZero notMask of
                  Inl e \<Rightarrow> Inl e
                | Inr allBitsSet \<Rightarrow>
                    Router_getNextFreeIp_loop this [allBitsZero, allBitsSet] 0)))"

text \<open>
  \<open>registerDevice\<close> returns the new device (or \<open>undefined\<close>, here \<open>None\<close>) and leaves the
  router updated.
\<close>

definition Router_registerDevice :: "MacAddress \<Rightarrow> Router \<Rightarrow> error + (Device option \<times> Router)" where
  "Router_registerDevice mac this =
     (case Router_priv_getNextFreeIp this of
        Inl e \<Rightarrow> Inl e
      | Inr None \<Rightarrow> Inr (None, this)
      | Inr (Some ip) \<Rightarrow>
          (let device = \<lparr> dev_mac = mac, dev_ip = ip, dev_isConfirmed = False \<rparr>
           in Inr (Some device, Router_priv_registerDevice device this)))"

text \<open>The two overloads of \<open>getDevice\<close>, by MAC address and by IP address.\<close>

definition Router_getDevice_mac :: "Router \<Rightarrow> MacAddress \<Rightarrow> Device option" where
  "Router_getDevice_mac this mac = devices this (MacAddress_toString mac)"

definition Router_getDevice_ip :: "Router \<Rightarrow> Ipv4Address \<Rightarrow> Device option" where
  "Router_getDevice_ip this ip =
     (case addressTable this (Ipv4Address_toInt ip) of
        None \<Rightarrow> None
      | Some mac \<Rightarrow> devices this (MacAddress_toString mac))"

definition Router_getOrRegisterDevice ::
  "MacAddress \<Rightarrow> Router \<Rightarrow> error + (Device option \<times> Router)" where
  "Router_getOrRegisterDevice mac this =
     (case Router_getDevice_mac this mac of
        Some device \<Rightarrow> Inr (Some device, this)
      | None \<Rightarrow> Router_registerDevice mac this)"

text \<open>A sequence of calls on one router, with the value each call returns.\<close>

datatype RouterCall = RegisterDevice MacAddress | GetOrRegisterDevice MacAddress

fun RouterCall_mac :: "RouterCall \<Rightarrow> MacAddress" where
  "RouterCall_mac (RegisterDevice mac) = mac"
| "RouterCall_mac (GetOrRegisterDevice mac) = mac"

fun Router_call :: "RouterCall \<Rightarrow> Router \<Rightarrow> error + (Device option \<times> Router)" where
  "Router_call (RegisterDevice mac) this = Router_registerDevice mac this"
| "Router_call (GetOrRegisterDevice mac) this = Router_getOrRegisterDevice mac this"

fun Router_calls :: "RouterCall list \<Rightarrow> Router \<Rightarrow> error + (Device option list \<times> Router)" where
  "Router_calls [] this = Inr ([], this)"
| "Router_calls (c # cs) this =
     (case Router_call c this of
        Inl e \<Rightarrow> Inl e
      | Inr (result, this') \<Rightarrow>
          (case Router_calls cs this' of
             Inl e \<Rightarrow> Inl e
           | Inr (results, this'') \<Rightarrow> Inr (result # results, this'')))"

section \<open>routers/router.ts: the ARP responder\<close>

text \<open>
  Decoded ARP data. A request carries no queried MAC address, which is \<open>None\<close> then. The
  TypeScript type fixes \<open>hardwareType\<close> to the literal \<open>0x1\<close> and \<open>protocolType\<close> to
  \<open>0x0800\<close>; the fields are kept as numbers because the responder tests the first.
\<close>

record ArpData =
  arp_srcMac :: MacAddress
  arp_destMac :: MacAddress
  arp_hardwareType :: int
  arp_protocolType :: int
  arp_hardwareSize :: int
  arp_protocolSize :: int
  arp_operation :: int
  arp_originMac :: MacAddress
  arp_originIp :: Ipv4Address
  arp_queriedMac :: "MacAddress option"
  arp_queriedIp :: Ipv4Address

text \<open>
  The \<open>onProcessFrame\<close> callback of \<open>ArpImplementation.createHandler\<close>. It returns the
  \<open>consumed\<close> flag and the frames passed to \<open>context.sendFrame\<close>, in order.
\<close>

definition ArpImplementation_onProcessFrame :: "Router \<Rightarrow> ArpData \<Rightarrow> bool \<times> ArpData list" where
  "ArpImplementation_onProcessFrame router frame =
     (let isRouterSource = MacAddress_equals (router_mac router) (arp_srcMac frame);
          isRouterDest = MacAddress_isRecipientOfTarget (router_mac router) (arp_destMac frame)
      in if isRouterSource then (True, [])
         else if \<not> isRouterDest then (False, [])
         else if arp_hardwareType frame \<noteq> 0x1 then (True, [])
         else (case map_option dev_mac (Router_getDevice_ip router (arp_queriedIp frame)) of
                 Some queriedMac \<Rightarrow>
                   (True, [\<lparr> arp_srcMac = router_mac router,
                             arp_destMac = arp_srcMac frame,
                             arp_hardwareType = arp_hardwareType frame,
                             arp_protocolType = arp_protocolType frame,
                             arp_hardwareSize = arp_hardwareSize frame,
                             arp_protocolSize = arp_protocolSize frame,
                             arp_operation = 0x2,
                             arp_originMac = arp_originMac frame,
                             arp_originIp = arp_originIp frame,
                             arp_queriedMac = Some queriedMac,
                             arp_queriedIp = arp_queriedIp frame \<rparr>])
               | None \<Rightarrow> (True, [])))"

section \<open>protocols/tcp.ts: the socket\<close>

text \<open>
  Flags are optional booleans that the code only tests for truthiness; an absent flag is
  \<open>False\<close>. Sequence and acknowledgement numbers are JavaScript numbers (the code does not
  reduce them modulo \<open>2 ^ 32\<close>). The optional fields a socket never sets are \<open>None\<close>.
\<close>

datatype TcpState = INIT | LISTEN | SYN_SENT | SYN_RECEIVED | ESTABLISHED | CLOSED

record TcpFlags =
  flag_ns :: bool
  flag_cwr :: bool
  flag_ece :: bool
  flag_urg :: bool
  flag_ack :: bool
  flag_psh :: bool
  flag_rst :: bool
  flag_syn :: bool
  flag_fin :: bool

definition noFlags :: TcpFlags where
  "noFlags = \<lparr> flag_ns = False, flag_cwr = False, flag_ece = False, flag_urg = False,
               flag_ack = False, flag_psh = False, flag_rst = False, flag_syn = False,
               flag_fin = False \<rparr>"

record TcpPacket =
  tcp_srcIp :: Ipv4Address
  tcp_destIp :: Ipv4Address
  tcp_srcPort :: int
  tcp_destPort :: int
  tcp_seq :: int
  tcp_ack :: int
  tcp_flags :: TcpFlags
  tcp_windowSize :: "int option"
  tcp_urgentPointer :: "int option"
  tcp_options :: "byte list option"
  tcp_data :: "byte list"

text \<open>
  What a socket does to the outside, in the order it happens: it hands a packet to
  \<open>onSendPacketCallback\<close> (the first transmission of \<open>_sendPacket\<close>), it calls a registered
  callback, or it posts \<open>_onEstablishedCallback\<close> with \<open>setTimeout\<close>. Registered callbacks are
  closures of the caller; a callback is named by a number and its call is recorded, its body
  is not part of the socket. The timer-driven retransmissions of \<open>_sendPacket\<close> are not
  modelled.
\<close>

datatype TcpEvent =
    OnSendPacket TcpPacket
  | DataCallback nat TcpPacket
  | EstablishedCallback nat
  | CloseCallback nat
  | SetTimeout_onEstablishedCallback

record TcpSocket =
  sock_isServer :: bool
  sock_srcIp :: Ipv4Address
  sock_destIp :: Ipv4Address
  sock_srcPort :: int
  sock_destPort :: int
  sock_state :: TcpState
  sock_seq :: int
  sock_ack :: int
  sock_onDataCallbacks :: "nat list"
  sock_onEstablishedCallbacks :: "nat list"
  sock_onCloseCallbacks :: "nat list"
  sock_sentPacketsUnacknowledged :: "TcpPacket list"
  sock_receivedPacketsUnacknowledged :: "TcpPacket list"
  sock_writeOnceEstablished :: "byte list list"
  sock_events :: "TcpEvent list"

text \<open>
  A method either returns or throws; in both cases the socket keeps the mutations made so
  far.
\<close>

datatype outcome = Returned TcpSocket | Threw error TcpSocket

fun socketOf :: "outcome \<Rightarrow> TcpSocket" where
  "socketOf (Returned s) = s"
| "socketOf (Threw e s) = s"

text \<open>The constructor; \<open>randomInt32\<close> is the value read from the four random bytes.\<close>

definition TcpSocket_new ::
  "bool \<Rightarrow> Ipv4Address \<Rightarrow> Ipv4Address \<Rightarrow> int \<Rightarrow> int \<Rightarrow> int \<Rightarrow> TcpSocket" where
  "TcpSocket_new isServer srcIp destIp srcPort destPort randomInt32 =
     \<lparr> sock_isServer = isServer, sock_srcIp = srcIp, sock_destIp = destIp,
       sock_srcPort = srcPort, sock_destPort = destPort, sock_state = INIT,
       sock_seq = js_and randomInt32 0x3fffffff div 100 * 100, sock_ack = 0,
       sock_onDataCallbacks = [], sock_onEstablishedCallbacks = [], sock_onCloseCallbacks = [],
       sock_sentPacketsUnacknowledged = [], sock_receivedPacketsUnacknowledged = [],
       sock_writeOnceEstablished = [], sock_events = [] \<rparr>"

definition TcpSocket_onData :: "nat \<Rightarrow> TcpSocket \<Rightarrow> TcpSocket" where
  "TcpSocket_onData callback this =
     this\<lparr> sock_onDataCallbacks := sock_onDataCallbacks this @ [callback] \<rparr>"

definition TcpSocket_onEstablished :: "nat \<Rightarrow> TcpSocket \<Rightarrow> TcpSocket" where
  "TcpSocket_onEstablished callback this =
     this\<lparr> sock_onEstablishedCallbacks := sock_onEstablishedCallbacks this @ [callback] \<rparr>"

definition TcpSocket_onClose :: "nat \<Rightarrow> TcpSocket \<Rightarrow> TcpSocket" where
  "TcpSocket_onClose callback this =
     this\<lparr> sock_onCloseCallbacks := sock_onCloseCallbacks this @ [callback] \<rparr>"

definition TcpSocket_priv_onDataCallback :: "TcpPacket \<Rightarrow> TcpSocket \<Rightarrow> TcpSocket" where
  "TcpSocket_priv_onDataCallback data this =
     this\<lparr> sock_events := sock_events this @
             map (\<lambda>callback. DataCallback callback data) (sock_onDataCallbacks this) \<rparr>"

definition TcpSocket_priv_onCloseCallback :: "TcpSocket \<Rightarrow> TcpSocket" where
  "TcpSocket_priv_onCloseCallback this =
     this\<lparr> sock_events := sock_events this @ map CloseCallback (sock_onCloseCallbacks this) \<rparr>"

text \<open>
  \<open>_sendPacket\<close>: the packet gets the socket's addresses, \<open>_seq\<close> advances, the packet
  joins the unacknowledged list and is handed to \<open>onSendPacketCallback\<close>.
\<close>

definition TcpSocket_priv_sendPacket ::
  "int \<Rightarrow> int \<Rightarrow> int \<Rightarrow> TcpFlags \<Rightarrow> byte list \<Rightarrow> TcpSocket \<Rightarrow> TcpSocket" where
  "TcpSocket_priv_sendPacket seqIncrement seq ack flags data this =
     (let tcpPacket = \<lparr> tcp_srcIp = sock_srcIp this, tcp_destIp = sock_destIp this,
                         tcp_srcPort = sock_srcPort this, tcp_destPort = sock_destPort this,
                         tcp_seq = seq, tcp_ack = ack, tcp_flags = flags,
                         tcp_windowSize = None, tcp_urgentPointer = None, tcp_options = None,
                         tcp_data = data \<rparr>
      in this\<lparr> sock_seq := sock_seq this + seqIncrement,
                sock_sentPacketsUnacknowledged := sock_sentPacketsUnacknowledged this @ [tcpPacket],
                sock_events := sock_events this @ [OnSendPacket tcpPacket] \<rparr>)"

definition TcpSocket_priv_writeSinglePacket :: "byte list \<Rightarrow> TcpSocket \<Rightarrow> outcome" where
  "TcpSocket_priv_writeSinglePacket data this =
     (if sock_state this \<noteq> ESTABLISHED then Threw WriteInInvalidState this
      else Returned (TcpSocket_priv_sendPacket (int (length data)) (sock_seq this) (sock_ack this)
                       (noFlags\<lparr> flag_ack := True \<rparr>) data this))"

text \<open>The \<open>for\<close> loop of \<open>write\<close>; \<open>data.slice(i, i + 1200)\<close> is \<open>take 1200 (drop i data)\<close>.\<close>

function TcpSocket_write_loop :: "nat \<Rightarrow> byte list \<Rightarrow> TcpSocket \<Rightarrow> outcome" where
  "TcpSocket_write_loop i data this =
     (if i < length data then
        (case TcpSocket_priv_writeSinglePacket (take 1200 (drop i data)) this of
           Threw e this' \<Rightarrow> Threw e this'
         | Returned this' \<Rightarrow> TcpSocket_write_loop (i + 1200) data this')
      else Returned this)"
  by pat_completeness auto
termination
  by (relation "measure (\<lambda>(i, data, this). length data - i)") auto

declare TcpSocket_write_loop.simps [simp del]

definition TcpSocket_write :: "byte list \<Rightarrow> TcpSocket \<Rightarrow> outcome" where
  "TcpSocket_write data this =
     (if sock_state this \<noteq> ESTABLISHED
      then Returned (this\<lparr> sock_writeOnceEstablished := sock_writeOnceEstablished this @ [data] \<rparr>)
      else TcpSocket_write_loop 0 data this)"

text \<open>
  \<open>_onEstablishedCallback\<close>: \<open>splice(0)\<close> empties the buffer and yields its elements, each
  is written, then the callbacks are called. An exception of \<open>write\<close> ends the method.
\<close>

fun TcpSocket_writeAll :: "byte list list \<Rightarrow> TcpSocket \<Rightarrow> outcome" where
  "TcpSocket_writeAll [] this = Returned this"
| "TcpSocket_writeAll (data # rest) this =
     (case TcpSocket_write data this of
        Threw e this' \<Rightarrow> Threw e this'
      | Returned this' \<Rightarrow> TcpSocket_writeAll rest this')"

definition TcpSocket_priv_onEstablishedCallback :: "TcpSocket \<Rightarrow> outcome" where
  "TcpSocket_priv_onEstablishedCallback this =
     (case TcpSocket_writeAll (sock_writeOnceEstablished this)
             (this\<lparr> sock_writeOnceEstablished := [] \<rparr>) of
        Threw e this' \<Rightarrow> Threw e this'
      | Returned this' \<Rightarrow>
          Returned (this'\<lparr> sock_events := sock_events this' @
                      map EstablishedCallback (sock_onEstablishedCallbacks this') \<rparr>))"

definition TcpSocket_close :: "TcpSocket \<Rightarrow> TcpSocket" where
  "TcpSocket_close this = TcpSocket_priv_onCloseCallback (this\<lparr> sock_state := CLOSED \<rparr>)"

definition TcpSocket_isClosed :: "TcpSocket \<Rightarrow> bool" where
  "TcpSocket_isClosed this \<longleftrightarrow> sock_state this = CLOSED"

definition TcpSocket_listen :: "TcpSocket \<Rightarrow> outcome" where
  "TcpSocket_listen this =
     (if sock_state this \<noteq> INIT then Threw ListenInInvalidState this
      else if \<not> sock_isServer this then Threw ListenOnClientSocket this
      else Returned (this\<lparr> sock_state := LISTEN \<rparr>))"

definition TcpSocket_connect :: "TcpSocket \<Rightarrow> outcome" where
  "TcpSocket_connect this =
     (if sock_state this \<noteq> INIT then Threw ConnectInInvalidState this
      else if sock_isServer this then Threw ConnectOnServerSocket this
      else Returned (TcpSocket_priv_sendPacket 1 (sock_seq this) 0 (noFlags\<lparr> flag_syn := True \<rparr>) []
                       (this\<lparr> sock_state := SYN_SENT \<rparr>)))"

text \<open>
  The \<open>while (true)\<close> loop of the ESTABLISHED case. \<open>find\<close> yields the first held packet with
  \<open>seq <= _ack\<close>; the filter \<open>packet !== p\<close> removes that one object, which is the first
  equal element of the list. The boolean is \<open>mustAcknowledge\<close>.
\<close>

function TcpSocket_process_drain :: "TcpSocket \<Rightarrow> bool \<Rightarrow> TcpSocket \<times> bool" where
  "TcpSocket_process_drain this mustAcknowledge =
     (case find (\<lambda>packet. tcp_seq packet \<le> sock_ack this) (sock_receivedPacketsUnacknowledged this) of
        None \<Rightarrow> (this, mustAcknowledge)
      | Some packet \<Rightarrow>
          (let this1 = this\<lparr> sock_receivedPacketsUnacknowledged :=
                                remove1 packet (sock_receivedPacketsUnacknowledged this) \<rparr>
           in if tcp_seq packet < sock_ack this1 then TcpSocket_process_drain this1 True
              else (let this2 = this1\<lparr> sock_ack := sock_ack this1 + int (length (tcp_data packet)) \<rparr>
                    in if length (tcp_data packet) > 0
                       then TcpSocket_process_drain (TcpSocket_priv_onDataCallback packet this2) True
                       else TcpSocket_process_drain this2 mustAcknowledge)))"
  by pat_completeness auto
termination
proof (relation "measure (\<lambda>(this, mustAcknowledge). length (sock_receivedPacketsUnacknowledged this))")
  show "wf (measure (\<lambda>(this, mustAcknowledge). length (sock_receivedPacketsUnacknowledged this)))"
    by simp
next
  fix this :: TcpSocket and mustAcknowledge :: bool and packet this1
  assume f: "find (\<lambda>packet. tcp_seq packet \<le> sock_ack this)
               (sock_receivedPacketsUnacknowledged this) = Some packet"
    and t1: "this1 = this\<lparr> sock_receivedPacketsUnacknowledged :=
                              remove1 packet (sock_receivedPacketsUnacknowledged this) \<rparr>"
  from f have "packet \<in> set (sock_receivedPacketsUnacknowledged this)"
    by (auto simp: find_Some_iff)
  then have less: "length (remove1 packet (sock_receivedPacketsUnacknowledged this))
                 < length (sock_receivedPacketsUnacknowledged this)"
    by (simp add: length_remove1) (cases "sock_receivedPacketsUnacknowledged this", auto)
  with t1 show "((this1, True), (this, mustAcknowledge))
      \<in> measure (\<lambda>(this, mustAcknowledge). length (sock_receivedPacketsUnacknowledged this))"
    by simp
  fix this2
  assume t2: "this2 = this1\<lparr> sock_ack := sock_ack this1 + int (length (tcp_data packet)) \<rparr>"
  from less t1 t2 show "((TcpSocket_priv_onDataCallback packet this2, True), (this, mustAcknowledge))
      \<in> measure (\<lambda>(this, mustAcknowledge). length (sock_receivedPacketsUnacknowledged this))"
    by (simp add: TcpSocket_priv_onDataCallback_def)
  from less t1 t2 show "((this2, mustAcknowledge), (this, mustAcknowledge))
      \<in> measure (\<lambda>(this, mustAcknowledge). length (sock_receivedPacketsUnacknowledged this))"
    by simp
qed

declare TcpSocket_process_drain.simps [simp del]

text \<open>
  \<open>process\<close>, the handling of an inbound packet, in the order of the source: the tests that
  end the method early, the removal of acknowledged packets from the unacknowledged list
  (\<open>TcpSocket_process_acknowledge\<close>, the \<open>if (tcpPacket.flags.ack)\<close> statement) and the
  \<open>switch\<close> over the state (\<open>TcpSocket_process_switch\<close>). The \<open>switch\<close> has no case for
  INIT, which the first test excludes; its \<open>default\<close> branch throws.
\<close>

definition TcpSocket_process_acknowledge :: "TcpPacket \<Rightarrow> TcpSocket \<Rightarrow> TcpSocket" where
  "TcpSocket_process_acknowledge tcpPacket this =
     (if flag_ack (tcp_flags tcpPacket)
      then this\<lparr> sock_sentPacketsUnacknowledged :=
             filter (\<lambda>packet. tcp_seq packet + int (length (tcp_data packet)) > tcp_ack tcpPacket)
               (sock_sentPacketsUnacknowledged this) \<rparr>
      else this)"

definition TcpSocket_process_switch :: "TcpPacket \<Rightarrow> TcpSocket \<Rightarrow> outcome" where
  "TcpSocket_process_switch tcpPacket this =
     (case sock_state this of
        LISTEN \<Rightarrow>
          if flag_syn (tcp_flags tcpPacket)
          then (let this = this\<lparr> sock_state := SYN_RECEIVED, sock_ack := tcp_seq tcpPacket + 1 \<rparr>
                in Returned (TcpSocket_priv_sendPacket 1 (sock_seq this) (sock_ack this)
                               (noFlags\<lparr> flag_syn := True, flag_ack := True \<rparr>) [] this))
          else Returned this
      | SYN_RECEIVED \<Rightarrow>
          if flag_ack (tcp_flags tcpPacket)
          then Returned (this\<lparr> sock_state := ESTABLISHED,
                                sock_events := sock_events this @ [SetTimeout_onEstablishedCallback] \<rparr>)
          else Returned this
      | SYN_SENT \<Rightarrow>
          if flag_syn (tcp_flags tcpPacket) \<and> flag_ack (tcp_flags tcpPacket)
          then (let this = this\<lparr> sock_state := ESTABLISHED, sock_ack := tcp_seq tcpPacket + 1 \<rparr>;
                    this = TcpSocket_priv_sendPacket 0 (sock_seq this) (sock_ack this)
                             (noFlags\<lparr> flag_ack := True \<rparr>) [] this
                in Returned (this\<lparr> sock_events := sock_events this @
                                        [SetTimeout_onEstablishedCallback] \<rparr>))
          else Returned this
      | ESTABLISHED \<Rightarrow>
          if length (sock_writeOnceEstablished this) > 0
          then Threw WriteOnceEstablishedNotEmpty this
          else (let this = this\<lparr> sock_receivedPacketsUnacknowledged :=
                                    sock_receivedPacketsUnacknowledged this @ [tcpPacket] \<rparr>;
                    (this, mustAcknowledge) = TcpSocket_process_drain this False
                in if mustAcknowledge
                   then Returned (TcpSocket_priv_sendPacket 0 (sock_seq this) (sock_ack this)
                                    (noFlags\<lparr> flag_ack := True \<rparr>) [] this)
                   else Returned this)
      | CLOSED \<Rightarrow> Returned this
      | INIT \<Rightarrow> Threw UnknownTcpSocketState this)"

definition TcpSocket_process :: "TcpPacket \<Rightarrow> TcpSocket \<Rightarrow> outcome" where
  "TcpSocket_process tcpPacket this =
     (if sock_state this = INIT then Threw ProcessInInvalidState this
      else if Ipv4Address_equals (tcp_srcIp tcpPacket) (sock_srcIp this)
              \<and> tcp_srcPort tcpPacket = sock_srcPort this
      then Returned this
      else if \<not> Ipv4Address_equals (tcp_destIp tcpPacket) (sock_srcIp this)
              \<or> tcp_destPort tcpPacket \<noteq> sock_srcPort this
      then Threw PacketNeitherFromNorForSocket this
      else if flag_fin (tcp_flags tcpPacket) then Returned (TcpSocket_close this)
      else TcpSocket_process_switch tcpPacket (TcpSocket_process_acknowledge tcpPacket this))"

text \<open>
  An inbound packet that passes the address tests of \<open>process\<close>: it is for the socket's own
  address and port and does not come from them.
\<close>

definition addressedTo :: "TcpPacket \<Rightarrow> TcpSocket \<Rightarrow> bool" where
  "addressedTo p s \<longleftrightarrow>
     tcp_destIp p = sock_srcIp s \<and> tcp_destPort p = sock_srcPort s \<and>
     \<not> (tcp_srcIp p = sock_srcIp s \<and> tcp_srcPort p = sock_srcPort s)"

section \<open>Notions used to state the properties of the router\<close>

text \<open>Byte \<open>k\<close> (counted from the least significant) of an integer.\<close>

definition byteOf :: "nat \<Rightarrow> int \<Rightarrow> byte" where
  "byteOf k z = word_of_int (drop_bit (8 * k) z)"

definition ipOfInt :: "int \<Rightarrow> Ipv4Address" where
  "ipOfInt cur = Ipv4Address (byteOf 3 cur) (byteOf 2 cur) (byteOf 1 cur) (byteOf 0 cur)"

text \<open>A router with the subnet mask 255.255.0.0 whose own address starts with \<open>a.b\<close>.\<close>

definition mask16 :: "Router \<Rightarrow> byte \<Rightarrow> byte \<Rightarrow> bool" where
  "mask16 r a b \<longleftrightarrow> router_subnetMask r = Ipv4Address 255 255 0 0 \<and>
     (\<exists>c d. router_ip r = Ipv4Address a b c d)"

definition inSubnet16 :: "byte \<Rightarrow> byte \<Rightarrow> int \<Rightarrow> bool" where
  "inSubnet16 a b cur \<longleftrightarrow> a = byteOf 3 cur \<and> b = byteOf 2 cur"

definition jump16 :: "byte \<Rightarrow> byte \<Rightarrow> int \<Rightarrow> int" where
  "jump16 a b cur = Ipv4Address_toInt (Ipv4Address (a XOR byteOf 3 cur) (b XOR byteOf 2 cur) 0 0)"

text \<open>
  An address of the subnet \<open>a.b.0.0/16\<close> that is neither the network address \<open>a.b.0.0\<close>
  nor the all-ones broadcast address \<open>a.b.255.255\<close>.
\<close>

definition allocatable16 :: "byte \<Rightarrow> byte \<Rightarrow> Ipv4Address \<Rightarrow> bool" where
  "allocatable16 a b ip =
     (case ip of Ipv4Address p q x y \<Rightarrow>
        p = a \<and> q = b \<and> (x, y) \<noteq> (0, 0) \<and> (x, y) \<noteq> (255, 255))"

text \<open>The address table maps the device's IP address to the device's MAC address.\<close>

definition recorded :: "Router \<Rightarrow> Device \<Rightarrow> bool" where
  "recorded r dev \<longleftrightarrow> addressTable r (Ipv4Address_toInt (dev_ip dev)) = Some (dev_mac dev)"

text \<open>
  The invariant of the device table: every device is stored under the string of its own MAC
  address, is recorded in the address table, and is the router itself or holds an
  allocatable address.
\<close>

definition Router_inv :: "MacAddress \<Rightarrow> byte \<Rightarrow> byte \<Rightarrow> byte \<Rightarrow> byte \<Rightarrow> Router \<Rightarrow> bool" where
  "Router_inv mac a b c d r \<longleftrightarrow>
     router_subnetMask r = Ipv4Address 255 255 0 0 \<and> router_ip r = Ipv4Address a b c d \<and>
     (\<forall>k dev. devices r k = Some dev \<longrightarrow>
        k = MacAddress_toString (dev_mac dev) \<and> recorded r dev \<and>
        (dev = Router_asDevice mac (Ipv4Address a b c d) \<or> allocatable16 a b (dev_ip dev)))"

text \<open>
  Every MAC address in the address table has a device in the device table; the reply of the
  ARP responder to a request; a router with one registered device and a broadcast request
  from another machine, as examples.
\<close>

definition tablesLinked :: "Router \<Rightarrow> bool" where
  "tablesLinked r \<longleftrightarrow>
     (\<forall>k m. addressTable r k = Some m \<longrightarrow> devices r (MacAddress_toString m) \<noteq> None)"

definition arpReply :: "Router \<Rightarrow> ArpData \<Rightarrow> MacAddress \<Rightarrow> ArpData" where
  "arpReply router frame queriedMac =
     frame\<lparr> arp_operation := 2, arp_srcMac := router_mac router, arp_destMac := arp_srcMac frame,
            arp_queriedMac := Some queriedMac \<rparr>"

definition exampleRouter :: Router where
  "exampleRouter =
     (case Router_calls [RegisterDevice (MacAddress 0x00 0x22 0x15 0x64 0x7b 0x90)]
             (Router_new (MacAddress 0x00 0x0c 0x13 0x37 0x42 0x69) (Ipv4Address 192 168 13 37)
                (Ipv4Address 255 255 0 0)) of
        Inl e \<Rightarrow> Router_new (MacAddress 0x00 0x0c 0x13 0x37 0x42 0x69) (Ipv4Address 192 168 13 37)
                (Ipv4Address 255 255 0 0)
      | Inr (results, r) \<Rightarrow> r)"

definition exampleArpRequest :: "Ipv4Address \<Rightarrow> ArpData" where
  "exampleArpRequest queriedIp =
     \<lparr> arp_srcMac = MacAddress 0xaa 0xbb 0xcc 0xdd 0xee 0xff,
       arp_destMac = MacAddress 0xff 0xff 0xff 0xff 0xff 0xff,
       arp_hardwareType = 1, arp_protocolType = 0x0800, arp_hardwareSize = 6, arp_protocolSize = 4,
       arp_operation = 1,
       arp_originMac = MacAddress 0xaa 0xbb 0xcc 0xdd 0xee 0xff,
       arp_originIp = Ipv4Address 192 168 0 5,
       arp_queriedMac = None,
       arp_queriedIp = queriedIp \<rparr>"

section \<open>Notions and example sockets used to state the properties of the TCP socket\<close>

definition exampleSocket :: "bool \<Rightarrow> TcpState \<Rightarrow> TcpSocket" where
  "exampleSocket isServer st =
     (TcpSocket_new isServer (Ipv4Address 192 168 13 37) (Ipv4Address 192 168 0 1) 12400 5432
        0x12345678)\<lparr> sock_state := st \<rparr>"

definition examplePacket :: "TcpFlags \<Rightarrow> int \<Rightarrow> int \<Rightarrow> byte list \<Rightarrow> TcpPacket" where
  "examplePacket flags seq ack data =
     \<lparr> tcp_srcIp = Ipv4Address 192 168 0 1, tcp_destIp = Ipv4Address 192 168 13 37,
       tcp_srcPort = 5432, tcp_destPort = 12400, tcp_seq = seq, tcp_ack = ack,
       tcp_flags = flags, tcp_windowSize = Some 0xffff, tcp_urgentPointer = Some 0,
       tcp_options = Some [], tcp_data = data \<rparr>"

definition exampleSegment :: TcpPacket where
  "exampleSegment =
     \<lparr> tcp_srcIp = Ipv4Address 192 168 13 37, tcp_destIp = Ipv4Address 192 168 0 1,
       tcp_srcPort = 12400, tcp_destPort = 5432, tcp_seq = 305419800, tcp_ack = 0,
       tcp_flags = noFlags\<lparr> flag_ack := True \<rparr>,
       tcp_windowSize = None, tcp_urgentPointer = None, tcp_options = None,
       tcp_data = [1, 2, 3, 4, 5] \<rparr>"

definition exampleSent :: TcpSocket where
  "exampleSent = (exampleSocket False ESTABLISHED)
       \<lparr> sock_seq := 305419805, sock_sentPacketsUnacknowledged := [exampleSegment],
         sock_events := [OnSendPacket exampleSegment] \<rparr>"

definition dataSegment :: "TcpSocket \<Rightarrow> byte list \<Rightarrow> nat \<Rightarrow> TcpPacket" where
  "dataSegment s data k =
     \<lparr> tcp_srcIp = sock_srcIp s, tcp_destIp = sock_destIp s,
       tcp_srcPort = sock_srcPort s, tcp_destPort = sock_destPort s,
       tcp_seq = sock_seq s + 1200 * int k, tcp_ack = sock_ack s,
       tcp_flags = noFlags\<lparr> flag_ack := True \<rparr>,
       tcp_windowSize = None, tcp_urgentPointer = None, tcp_options = None,
       tcp_data = take 1200 (drop (1200 * k) data) \<rparr>"

definition segmentFrom :: "TcpSocket \<Rightarrow> byte list \<Rightarrow> nat \<Rightarrow> nat \<Rightarrow> TcpPacket" where
  "segmentFrom s data i k =
     \<lparr> tcp_srcIp = sock_srcIp s, tcp_destIp = sock_destIp s,
       tcp_srcPort = sock_srcPort s, tcp_destPort = sock_destPort s,
       tcp_seq = sock_seq s + 1200 * int k, tcp_ack = sock_ack s,
       tcp_flags = noFlags\<lparr> flag_ack := True \<rparr>,
       tcp_windowSize = None, tcp_urgentPointer = None, tcp_options = None,
       tcp_data = take 1200 (drop (i + 1200 * k) data) \<rparr>"

fun isEstablishedCallback :: "TcpEvent \<Rightarrow> bool" where
  "isEstablishedCallback (EstablishedCallback c) = True"
| "isEstablishedCallback e = False"

fun callbacksBeforeSegments :: "TcpEvent list \<Rightarrow> bool" where
  "callbacksBeforeSegments [] = True"
| "callbacksBeforeSegments (OnSendPacket p # rest) = list_all (\<lambda>e. \<not> isEstablishedCallback e) rest"
| "callbacksBeforeSegments (e # rest) = callbacksBeforeSegments rest"

definition exampleConnecting :: TcpSocket where
  "exampleConnecting =
     socketOf (TcpSocket_write [0x68, 0x65, 0x6c, 0x6c, 0x6f]
       (TcpSocket_onEstablished 7 (socketOf (TcpSocket_connect (exampleSocket False INIT)))))"

definition exampleEstablished :: TcpSocket where
  "exampleEstablished =
     socketOf (TcpSocket_process
       (examplePacket (noFlags\<lparr> flag_syn := True, flag_ack := True \<rparr>) 5000 305419801 [])
       exampleConnecting)"

definition exampleClosedBeforeTick :: TcpSocket where
  "exampleClosedBeforeTick =
     socketOf (TcpSocket_process
       (examplePacket (noFlags\<lparr> flag_fin := True, flag_ack := True \<rparr>) 5001 305419801 [])
       exampleEstablished)"

section \<open>utils/callback-event-target.ts and the dispatch of network-adapter.ts\<close>

text \<open>
  A \<open>CallbackEventTarget\<close> keeps its listeners in a JavaScript \<open>Map\<close> from the callback
  function to the listener; a \<open>Map\<close> iterates in insertion order. The model is an association
  list in insertion order whose keys are natural numbers standing for the identity of the
  callback function. A callback is a function of the data, the metadata and the state \<open>'w\<close> of
  everything else it can touch; it returns its result or the error it throws, and the new
  state. The source also passes the target itself to the callback; the callbacks of the
  pipeline ignore that argument. They are all registered while the handlers are created and
  none of them adds or removes a listener of the target that is calling it, so the loop of
  \<open>emit\<close> runs over the entries the target had when \<open>emit\<close> was called.
\<close>

type_synonym ('d, 'm, 'r, 'w) Callback = "'d \<Rightarrow> 'm \<Rightarrow> 'w \<Rightarrow> (error + 'r) \<times> 'w"

record ('d, 'm, 'r, 'w) Listener =
  listener_once :: bool
  listener_callback :: "('d, 'm, 'r, 'w) Callback"
  listener_metadata :: 'm

type_synonym ('d, 'm, 'r, 'w) CallbackEventTarget = "(nat \<times> ('d, 'm, 'r, 'w) Listener) list"



definition CallbackEventTarget_has :: "nat \<Rightarrow> ('d, 'm, 'r, 'w) CallbackEventTarget \<Rightarrow> bool" where
  "CallbackEventTarget_has k t = (k \<in> set (map fst t))"


definition CallbackEventTarget_priv_addListener ::
  "nat \<Rightarrow> ('d, 'm, 'r, 'w) Callback \<Rightarrow> 'm \<Rightarrow> bool \<Rightarrow> ('d, 'm, 'r, 'w) CallbackEventTarget
     \<Rightarrow> error + ('d, 'm, 'r, 'w) CallbackEventTarget" where
  "CallbackEventTarget_priv_addListener k callback metadata once t =
     (if CallbackEventTarget_has k t then Inl CallbackAlreadyAdded
      else Inr (t @ [(k, \<lparr> listener_once = once, listener_callback = callback,
                           listener_metadata = metadata \<rparr>)]))"


definition CallbackEventTarget_addListenerOnce ::
  "nat \<Rightarrow> ('d, 'm, 'r, 'w) Callback \<Rightarrow> 'm \<Rightarrow> ('d, 'm, 'r, 'w) CallbackEventTarget
     \<Rightarrow> error + ('d, 'm, 'r, 'w) CallbackEventTarget" where
  "CallbackEventTarget_addListenerOnce k callback metadata t =
     CallbackEventTarget_priv_addListener k callback metadata True t"










section \<open>Verified properties\<close>

subsection \<open>Arithmetic of the 32-bit operators\<close>

lemma toInt32_id: "- (2 ^ 31) \<le> x \<Longrightarrow> x < 2 ^ 31 \<Longrightarrow> toInt32 x = x"
  unfolding toInt32_def by simp

lemma int_and_65535: "(t::int) AND 65535 = t mod 65536"
proof -
  have "t AND mask 16 = take_bit 16 t" by (simp add: take_bit_eq_mask)
  then show ?thesis by (simp add: take_bit_eq_mod mask_eq_exp_minus_1)
qed

lemma int_and_255: "(t::int) AND 255 = t mod 256"
proof -
  have "t AND mask 8 = take_bit 8 t" by (simp add: take_bit_eq_mask)
  then show ?thesis by (simp add: take_bit_eq_mod mask_eq_exp_minus_1)
qed

lemma js_not_nonzero: "0 \<le> c \<Longrightarrow> c \<le> 0xffff \<Longrightarrow> js_not c \<noteq> 0"
  by (simp add: js_not_def toInt32_def not_int_def)

subsection \<open>The big-endian bytes of a number\<close>

text \<open>
  Values of \<open>toBigEndianFromInt\<close>: a port, a negative number in two's complement, the three
  errors, and negative numbers in 7 and 8 bytes, where the sum with \<open>256 ** bytes\<close> is rounded.
\<close>

lemma toBigEndianFromInt_examples:
  "toBigEndianFromInt 2 28963 = Inr [0x71, 0x23]"
  "toBigEndianFromInt 2 (- 2) = Inr [0xff, 0xfe]"
  "toBigEndianFromInt 2 65536 = Inl IntTooLarge"
  "toBigEndianFromInt 1 (- 257) = Inl IntTooSmall"
  "toBigEndianFromInt 4 (2 ^ 53) = Inl IntNotSafe"
  "toBigEndianFromInt 7 (- 1) = Inl IntTooLarge"
  "toBigEndianFromInt 8 (- 1024) = Inl IntTooLarge"
  "toBigEndianFromInt 8 (- 1025) = Inr [0xff, 0xff, 0xff, 0xff, 0xff, 0xff, 0xf8, 0x00]"
  "toBigEndianFromInt 8 (- 4096) = Inr [0xff, 0xff, 0xff, 0xff, 0xff, 0xff, 0xf0, 0x00]"
  by code_simp+

subsection \<open>The Internet checksum\<close>

lemma fold_arith:
  fixes res :: int
  assumes "65535 < res" "res < 2 ^ 31"
  shows "0 < res mod 65536 + res div 65536"
    and "res mod 65536 + res div 65536 < 2 ^ 31"
    and "(res mod 65536 + res div 65536) mod 65535 = res mod 65535"
proof -
  define q where "q = res div 65536"
  define m where "m = res mod 65536"
  have res: "res = 65536 * q + m" by (simp add: q_def m_def)
  have m: "0 \<le> m" "m < 65536" by (simp_all add: m_def)
  have q: "0 < q" "q < 32768" using assms by (simp_all add: q_def)
  show "0 < res mod 65536 + res div 65536" using m q by (simp add: q_def m_def)
  show "res mod 65536 + res div 65536 < 2 ^ 31" using m q by (simp add: q_def m_def)
  have "res = (m + q) + q * 65535" using res by simp
  then have "res mod 65535 = (m + q) mod 65535"
    by (metis mod_mult_self1)
  then show "(res mod 65536 + res div 65536) mod 65535 = res mod 65535"
    by (simp add: q_def m_def)
qed

lemma fold_step_small:
  assumes "0 \<le> r" "r < 2 ^ 31"
  shows "js_and r 0xffff + js_shr r 16 = r mod 65536 + r div 65536"
  using assms by (simp add: js_and_def js_shr_def toInt32_id int_and_65535 drop_bit_eq_div)

text \<open>
  Below \<open>2 ^ 31\<close> the loop is the textbook end-around carry: it keeps the value modulo
  65535, ends in the 16-bit range, and maps a positive sum to a positive result.
\<close>

lemma checksum_fold_spec:
  "0 \<le> r \<Longrightarrow> r < 2 ^ 31 \<Longrightarrow>
     0 \<le> checksum_fold r \<and> checksum_fold r \<le> 0xffff \<and>
     checksum_fold r mod 65535 = r mod 65535 \<and> (0 < r \<longrightarrow> 0 < checksum_fold r)"
proof (induction r rule: checksum_fold.induct)
  case (1 res)
  show ?case
  proof (cases "res > 0xffff")
    case False
    then show ?thesis using "1.prems" by (subst (1 2 3 4) checksum_fold.simps) simp
  next
    case True
    define n where "n = res mod 65536 + res div 65536"
    have eq: "js_and res 0xffff + js_shr res 16 = n"
      unfolding n_def using "1.prems" by (rule fold_step_small)
    have n0: "0 < n" "n < 2 ^ 31" "n mod 65535 = res mod 65535"
      unfolding n_def using True "1.prems" fold_arith [of res] by simp_all
    have ih: "0 \<le> checksum_fold n \<and> checksum_fold n \<le> 0xffff \<and>
     checksum_fold n mod 65535 = n mod 65535 \<and> (0 < n \<longrightarrow> 0 < checksum_fold n)"
      using "1.IH" [OF True] n0 eq by simp
    have "checksum_fold res = checksum_fold n"
      using True eq by (subst checksum_fold.simps) simp
    then show ?thesis using ih n0 by simp
  qed
qed

lemma checksum_reduce_acc:
  "checksum_reduce i acc xs = acc + checksum_reduce i 0 xs"
proof (induction xs arbitrary: i acc)
  case Nil
  show ?case by simp
next
  case (Cons b xs)
  show ?case
    using Cons.IH [of "i + 1" "acc + uint b * 256"] Cons.IH [of "i + 1" "acc + uint b"]
      Cons.IH [of "i + 1" "uint b * 256"] Cons.IH [of "i + 1" "uint b"]
    by simp
qed

lemma checksum_reduce_append:
  "checksum_reduce i acc (xs @ ys) = checksum_reduce (i + length xs) (checksum_reduce i acc xs) ys"
  by (induction xs arbitrary: i acc) simp_all

lemma checksum_reduce_parity:
  "even k \<Longrightarrow> checksum_reduce (i + k) acc xs = checksum_reduce i acc xs"
proof (induction xs arbitrary: i acc)
  case Nil
  show ?case by simp
next
  case (Cons b xs)
  have "(i + k) mod 2 = i mod 2" using Cons.prems by presburger
  moreover have "checksum_reduce (i + k + 1) a xs = checksum_reduce (i + 1) a xs" for a
    using Cons.IH [OF Cons.prems, of "i + 1" a] by (simp add: add.commute add.left_commute)
  ultimately show ?case by simp
qed

lemma checksum_reduce_pair:
  "checksum_reduce 0 0 (a # b # rest) = uint a * 256 + uint b + checksum_reduce 0 0 rest"
proof -
  have "checksum_reduce 0 0 (a # b # rest) = checksum_reduce (0 + 2) (uint a * 256 + uint b) rest"
    by (simp add: numeral_2_eq_2)
  also have "\<dots> = checksum_reduce 0 (uint a * 256 + uint b) rest"
    by (rule checksum_reduce_parity) simp
  finally show ?thesis
    using checksum_reduce_acc [of 0 "uint a * 256 + uint b" rest] by simp
qed

lemma uint_byte_le: "uint (b :: byte) \<le> 255"
  using uint_bounded [of b] by simp

lemma checksum_reduce_bounds:
  "even (length xs) \<Longrightarrow>
     0 \<le> checksum_reduce 0 0 xs \<and> checksum_reduce 0 0 xs \<le> 65535 * int (length xs div 2)"
proof (induction xs rule: induct_list012)
  case 1
  show ?case by simp
next
  case (2 x)
  then show ?case by simp
next
  case (3 a b rest)
  then have ih: "0 \<le> checksum_reduce 0 0 rest"
      "checksum_reduce 0 0 rest \<le> 65535 * int (length rest div 2)"
    by simp_all
  have "0 \<le> uint a" "0 \<le> uint b" by simp_all
  with ih uint_byte_le [of a] uint_byte_le [of b] show ?case
    unfolding checksum_reduce_pair by simp
qed

text \<open>
  The two bytes a sender writes for the field \<open>~c\<close> are the big-endian bytes of the 16-bit
  complement \<open>0xffff - c\<close>.
\<close>

lemma checksumFieldBytes_value:
  assumes "0 \<le> c" "c \<le> 0xffff"
  shows "checksum_reduce 0 0 (checksumFieldBytes (js_not c)) = 0xffff - c"
proof -
  define d where "d = 65535 - c"
  have d: "0 \<le> d" "d < 65536" using assms by (simp_all add: d_def)
  have n: "js_not c = d - 65536"
    using assms by (simp add: js_not_def toInt32_id not_int_def d_def)
  have r: "- (2 ^ 31) \<le> d - 65536" "d - 65536 < 2 ^ 31" using d by simp_all
  have sh: "js_shr (d - 65536) 8 = (d - 65536) div 256"
    using r by (simp add: js_shr_def toInt32_id drop_bit_eq_div)
  have m1: "(d - 65536) mod 256 = d mod 256"
    using mod_diff_right_eq [of d 65536 256] by simp
  have dv: "(d - 65536) div 256 = d div 256 - 256"
    using div_mult_self1 [of 256 d "-256"] by simp
  have m2: "(d div 256 - 256) mod 256 = d div 256"
    using d mod_diff_right_eq [of "d div 256" 256 256] by simp
  have r2: "- (2 ^ 31) \<le> d div 256 - 256" "d div 256 - 256 < 2 ^ 31" using d by simp_all
  have hi: "js_and (js_shr (js_not c) 8) 0xff = d div 256"
    unfolding n sh dv js_and_def using r2 m2 by (simp add: toInt32_id int_and_255)
  have lo: "js_and (js_not c) 0xff = d mod 256"
    unfolding n js_and_def using r m1 by (simp add: toInt32_id int_and_255)
  have "uint (toUint8 (d div 256)) = d div 256"
    using d by (simp add: toUint8_def uint_word_of_int take_bit_eq_mod)
  moreover have "uint (toUint8 (d mod 256)) = d mod 256"
    by (simp add: toUint8_def uint_word_of_int take_bit_eq_mod)
  ultimately have "checksum_reduce 0 0 (checksumFieldBytes (js_not c)) = d div 256 * 256 + d mod 256"
    unfolding checksumFieldBytes_def hi lo by simp
  then show ?thesis by (simp add: d_def)
qed

text \<open>
  Claim C7, as amended. For every byte sequence \<open>B\<close> of even length and at most 65535 bytes
  (the largest IPv4 datagram), appending the two big-endian bytes of the complemented
  checksum of \<open>B\<close> yields a sequence whose \<open>internetChecksum\<close> is \<open>0xffff\<close>. The bytes are
  built the way every sender of the stack builds its checksum field
  (\<open>~internetChecksum(B)\<close>, then \<open>>> 8 & 0xff\<close> and \<open>& 0xff\<close>).
\<close>

theorem internetChecksum_complement:
  assumes "even (length B)" "length B \<le> 65535"
  shows "internetChecksum (B @ checksumFieldBytes (js_not (internetChecksum B))) = 0xffff"
proof -
  define S where "S = checksum_reduce 0 0 B"
  define c where "c = checksum_fold S"
  have len: "length B div 2 \<le> 32767" using assms by simp
  have S: "0 \<le> S" "S \<le> 65535 * 32767"
  proof -
    from checksum_reduce_bounds [OF assms(1)]
    have b: "0 \<le> S" "S \<le> 65535 * int (length B div 2)" by (simp_all add: S_def)
    show "0 \<le> S" by (rule b)
    have "65535 * int (length B div 2) \<le> 65535 * 32767" using len by simp
    with b(2) show "S \<le> 65535 * 32767" by simp
  qed
  then have S31: "S < 2 ^ 31" by simp
  from checksum_fold_spec [OF S(1) S31]
  have c: "0 \<le> c" "c \<le> 0xffff" "c mod 65535 = S mod 65535" by (simp_all add: c_def)
  define T where "T = S + (65535 - c)"
  have total: "checksum_reduce 0 0 (B @ checksumFieldBytes (js_not c)) = T"
  proof -
    have "checksum_reduce 0 0 (B @ checksumFieldBytes (js_not c))
        = checksum_reduce (0 + length B) S (checksumFieldBytes (js_not c))"
      by (simp add: checksum_reduce_append S_def)
    also have "\<dots> = checksum_reduce 0 S (checksumFieldBytes (js_not c))"
      by (rule checksum_reduce_parity) (rule assms(1))
    also have "\<dots> = S + checksum_reduce 0 0 (checksumFieldBytes (js_not c))"
      by (rule checksum_reduce_acc)
    finally show ?thesis using checksumFieldBytes_value [OF c(1) c(2)] by (simp add: T_def)
  qed
  have Tpos: "0 < T"
  proof (cases "S = 0")
    case True
    then have "c = 0" by (simp add: c_def checksum_fold.simps)
    then show ?thesis using True by (simp add: T_def)
  next
    case False
    then show ?thesis using S c by (simp add: T_def)
  qed
  have T31: "T < 2 ^ 31" using S c by (simp add: T_def)
  have "T mod 65535 = (S - c) mod 65535"
    using mod_add_self2 [of "S - c" 65535] by (simp add: T_def algebra_simps)
  also have "\<dots> = 0"
    using c(3) mod_diff_eq [of S 65535 c] by simp
  finally have Tmod: "T mod 65535 = 0" .
  from Tpos have T0: "0 \<le> T" by simp
  from checksum_fold_spec [OF T0 T31] Tpos Tmod
  have f: "0 < checksum_fold T" "checksum_fold T \<le> 65535" "checksum_fold T mod 65535 = 0"
    by simp_all
  have "checksum_fold T = 65535"
  proof (rule ccontr)
    assume "checksum_fold T \<noteq> 65535"
    with f have "0 < checksum_fold T" "checksum_fold T < 65535" by simp_all
    then have "checksum_fold T mod 65535 = checksum_fold T" by simp
    with f show False by simp
  qed
  then show ?thesis
    using total by (simp add: internetChecksum_def S_def c_def)
qed

text \<open>
  The claim as stated, for any byte sequence, fails for an odd number of bytes: the appended
  field is then misaligned with the 16-bit words. For the single byte \<open>0x01\<close> the result is
  \<open>0x00ff\<close>.
\<close>

theorem internetChecksum_complement_counterexample:
  "\<not> (\<forall>B. internetChecksum (B @ checksumFieldBytes (js_not (internetChecksum B))) = 0xffff)"
proof
  assume "\<forall>B. internetChecksum (B @ checksumFieldBytes (js_not (internetChecksum B))) = 0xffff"
  then have "internetChecksum ([1] @ checksumFieldBytes (js_not (internetChecksum [1]))) = 0xffff"
    by blast
  moreover have "internetChecksum ([1] @ checksumFieldBytes (js_not (internetChecksum [1]))) = 0xff"
    by (simp add: internetChecksum_def checksum_fold.simps checksumFieldBytes_def js_not_def
        js_and_def js_shr_def toInt32_def toUint8_def)
  ultimately show False by simp
qed

theorem internetChecksum_complement_witness:
  "even (length [0x45, 0x00, 0x12, 0x34 :: byte]) \<and>
   length [0x45, 0x00, 0x12, 0x34 :: byte] \<le> 65535 \<and>
   internetChecksum ([0x45, 0x00, 0x12, 0x34] @
     checksumFieldBytes (js_not (internetChecksum [0x45, 0x00, 0x12, 0x34]))) = 0xffff"
  using internetChecksum_complement [of "[0x45, 0x00, 0x12, 0x34]"] by simp

subsection \<open>The UDP checksum field on the wire\<close>

text \<open>
  The sender compares \<open>~udpChecksum(...)\<close> with \<open>0\<close> to substitute \<open>0xffff\<close>. The operator
  \<open>~\<close> yields a signed 32-bit number, which for a checksum in the 16-bit range is never
  \<open>0\<close> (it is \<open>-65536\<close> when the checksum is \<open>0xffff\<close>), so the substitution is never made.
\<close>

lemma Udp_placeholderBytes_example:
  "Udp_placeholderBytes \<lparr> udp_srcIp = Ipv4Address 192 168 13 37, udp_destIp = Ipv4Address 192 168 0 2,
       udp_srcPort = 67, udp_destPort = 28963, udp_payload = [] \<rparr>
   = Inr [0, 67, 113, 35, 0, 8, 255, 255]"
  by (simp add: Udp_placeholderBytes_def toBigEndianFromInt_def isSafeInteger_def toUint8_def upt_rec)

lemma udpChecksum_example:
  "udpChecksum (Ipv4Address 192 168 13 37) (Ipv4Address 192 168 0 2)
     [0, 67, 113, 35, 0, 8, 255, 255] = Inr 0xffff"
  by (simp add: udpChecksum_def pseudoChecksum_def toBigEndianFromInt_def isSafeInteger_def
      toUint8_def upt_rec internetChecksum_def checksum_fold.simps js_and_def js_shr_def toInt32_def)

text \<open>
  Claim C6 fails on the code. For the datagram from 192.168.13.37 port 67 to 192.168.0.2
  port 28963 with an empty payload the pseudo-header checksum over the placeholder bytes is
  \<open>0xffff\<close>, its 16-bit complement is zero, and the checksum field sent is \<open>0x00 0x00\<close>, not
  \<open>0xff 0xff\<close>.
\<close>

theorem Udp_onSendData_zero_checksum_on_wire:
  "udpChecksum (Ipv4Address 192 168 13 37) (Ipv4Address 192 168 0 2)
     [0, 67, 113, 35, 0, 8, 255, 255] = Inr 0xffff \<and>
   map_sum id ipv4_payload
     (Udp_onSendData \<lparr> udp_srcIp = Ipv4Address 192 168 13 37, udp_destIp = Ipv4Address 192 168 0 2,
        udp_srcPort = 67, udp_destPort = 28963, udp_payload = [] \<rparr>)
   = Inr [0, 67, 113, 35, 0, 8, 0, 0]"
proof -
  have "map_sum id ipv4_payload
     (Udp_onSendData \<lparr> udp_srcIp = Ipv4Address 192 168 13 37, udp_destIp = Ipv4Address 192 168 0 2,
        udp_srcPort = 67, udp_destPort = 28963, udp_payload = [] \<rparr>)
   = Inr [0, 67, 113, 35, 0, 8, 0, 0]"
    unfolding Udp_onSendData_def Udp_placeholderBytes_example
    by (simp add: udpChecksum_example js_not_def js_and_def js_shr_def toInt32_def toUint8_def)
  with udpChecksum_example show ?thesis by simp
qed

subsection \<open>Addresses and the 32-bit operators\<close>

lemma toInt32_signed_take_bit: "toInt32 x = signed_take_bit 31 x"
  by (simp add: toInt32_def signed_take_bit_eq_take_bit_shift take_bit_eq_mod)

lemma signed_take_bit_and_int:
  "signed_take_bit n (a AND b) = signed_take_bit n a AND signed_take_bit n (b::int)"
  by (simp add: bit_eq_iff bit_signed_take_bit_iff bit_and_iff)

lemma signed_take_bit_or_int:
  "signed_take_bit n (a OR b) = signed_take_bit n a OR signed_take_bit n (b::int)"
  by (simp add: bit_eq_iff bit_signed_take_bit_iff bit_or_iff)

lemma signed_take_bit_xor_int:
  "signed_take_bit n (a XOR b) = signed_take_bit n a XOR signed_take_bit n (b::int)"
  by (simp add: bit_eq_iff bit_signed_take_bit_iff bit_xor_iff)

lemma signed_take_bit_not_int:
  "signed_take_bit n (NOT a) = NOT (signed_take_bit n (a::int))"
  by (simp add: bit_eq_iff bit_signed_take_bit_iff bit_not_iff)

lemma js_and_eq: "js_and x y = signed_take_bit 31 (x AND y)"
  by (simp add: js_and_def toInt32_signed_take_bit signed_take_bit_and_int)

lemma js_or_eq: "js_or x y = signed_take_bit 31 (x OR y)"
  by (simp add: js_or_def toInt32_signed_take_bit signed_take_bit_or_int)

lemma js_xor_eq: "js_xor x y = signed_take_bit 31 (x XOR y)"
  by (simp add: js_xor_def toInt32_signed_take_bit signed_take_bit_xor_int)

lemma js_not_eq: "js_not x = signed_take_bit 31 (NOT x)"
  by (simp add: js_not_def toInt32_signed_take_bit signed_take_bit_not_int)

lemma byteOf_take_bit: "k < 4 \<Longrightarrow> byteOf k (take_bit 32 z) = byteOf k z"
  unfolding byteOf_def
  by (rule bit_word_eqI) (auto simp add: bit_word_of_int_iff bit_drop_bit_eq bit_take_bit_iff)

lemma toUint8_js_and_255: "toUint8 (js_and z 0xff) = word_of_int z"
proof -
  have m: "(255::int) = mask 8" by (simp add: mask_eq_exp_minus_1)
  show ?thesis
    unfolding toUint8_def js_and_eq m
    by (rule bit_word_eqI)
      (auto simp add: bit_word_of_int_iff bit_signed_take_bit_iff bit_and_iff bit_mask_iff min_def)
qed

lemma div_256_drop_bit:
  "(z::int) div 256 = drop_bit 8 z" "z div 256 div 256 = drop_bit 16 z"
  "z div 256 div 256 div 256 = drop_bit 24 z"
  by (simp_all add: drop_bit_eq_div div_mult2_eq [symmetric])

lemma Ipv4Address_fromInt_bytes:
  "0 \<le> m \<Longrightarrow> m \<le> 0xffffffff \<Longrightarrow>
   Ipv4Address_fromInt m = Inr (Ipv4Address (byteOf 3 m) (byteOf 2 m) (byteOf 1 m) (byteOf 0 m))"
  by (simp add: Ipv4Address_fromInt_def toUint8_js_and_255 div_256_drop_bit byteOf_def)

lemma unsigned_of_int32:
  fixes s :: int
  assumes "- (2 ^ 31) \<le> s" "s < 2 ^ 31"
  shows "(if s < 0 then 0xffffffff + s + 1 else s) = s mod 2 ^ 32"
proof (cases "s < 0")
  case True
  then have "(s + 2 ^ 32) mod 2 ^ 32 = s + 2 ^ 32"
    using assms by (intro mod_pos_pos_trivial) simp_all
  then show ?thesis using True by simp
next
  case False
  then show ?thesis using assms by simp
qed

lemma fromSignedInt_adjust:
  "(if signed_take_bit 31 z < 0 then 0xffffffff + signed_take_bit 31 z + 1 else signed_take_bit 31 z)
     = take_bit 32 (z::int)"
proof -
  define s where "s = signed_take_bit 31 z"
  have "take_bit 32 z = take_bit 32 s"
    by (simp add: take_bit_signed_take_bit s_def)
  moreover have "- (2 ^ 31) \<le> s" "s < 2 ^ 31"
    using signed_take_bit_int_greater_eq_minus_exp [of 31 z] signed_take_bit_int_less_exp [of 31 z]
    by (simp_all add: s_def)
  ultimately show ?thesis
    unfolding s_def [symmetric] using unsigned_of_int32 [of s] by (simp add: take_bit_eq_mod)
qed

lemma Ipv4Address_fromSignedInt_bytes:
  "Ipv4Address_fromSignedInt (signed_take_bit 31 z)
     = Inr (Ipv4Address (byteOf 3 z) (byteOf 2 z) (byteOf 1 z) (byteOf 0 z))"
proof -
  have "0 \<le> take_bit 32 z" "take_bit 32 z \<le> 0xffffffff"
    using take_bit_int_less_exp [of 32 z] by simp_all
  then show ?thesis
    unfolding Ipv4Address_fromSignedInt_def fromSignedInt_adjust
    by (simp add: Ipv4Address_fromInt_bytes byteOf_take_bit)
qed

lemma word8_of_int_shift: "(word_of_int (x * 256 + uint (d::byte)) :: byte) = d"
proof -
  have "(word_of_int (x * 256 + uint d) :: byte) = word_of_int (uint d)"
    unfolding word_of_int_eq_iff by (simp add: take_bit_eq_mod)
  then show ?thesis by simp
qed

lemma Ipv4Address_toInt_expand:
  "Ipv4Address_toInt (Ipv4Address a b c d) = ((uint a * 256 + uint b) * 256 + uint c) * 256 + uint d"
  by (simp add: Ipv4Address_toInt_def)

lemma div_256_shift: "(x * 256 + uint (d::byte)) div 256 = x"
proof -
  have "0 \<le> uint d" "uint d < 256" using uint_bounded [of d] by simp_all
  then show ?thesis by simp
qed

lemma byteOf_toInt:
  "byteOf 0 (Ipv4Address_toInt (Ipv4Address a b c d)) = d"
  "byteOf (Suc 0) (Ipv4Address_toInt (Ipv4Address a b c d)) = c"
  "byteOf 2 (Ipv4Address_toInt (Ipv4Address a b c d)) = b"
  "byteOf 3 (Ipv4Address_toInt (Ipv4Address a b c d)) = a"
proof -
  let ?n = "Ipv4Address_toInt (Ipv4Address a b c d)"
  have d0: "drop_bit 0 ?n = ((uint a * 256 + uint b) * 256 + uint c) * 256 + uint d"
    by (simp only: Ipv4Address_toInt_expand drop_bit_0 id_apply)
  have d1: "drop_bit 8 ?n = (uint a * 256 + uint b) * 256 + uint c"
  proof -
    have "drop_bit 8 ?n = ?n div 256" by (simp add: drop_bit_eq_div)
    also have "\<dots> = (uint a * 256 + uint b) * 256 + uint c"
      unfolding Ipv4Address_toInt_expand by (rule div_256_shift)
    finally show ?thesis .
  qed
  have d2: "drop_bit 16 ?n = uint a * 256 + uint b"
  proof -
    have "drop_bit 16 ?n = drop_bit 8 (drop_bit 8 ?n)" by simp
    also have "\<dots> = ((uint a * 256 + uint b) * 256 + uint c) div 256"
      unfolding d1 by (simp add: drop_bit_eq_div)
    also have "\<dots> = uint a * 256 + uint b" by (rule div_256_shift)
    finally show ?thesis .
  qed
  have d3: "drop_bit 24 ?n = uint a"
  proof -
    have "drop_bit 24 ?n = drop_bit 8 (drop_bit 16 ?n)" by simp
    also have "\<dots> = (uint a * 256 + uint b) div 256"
      unfolding d2 by (simp add: drop_bit_eq_div)
    also have "\<dots> = uint a" by (rule div_256_shift)
    finally show ?thesis .
  qed
  show "byteOf 0 ?n = d"
    unfolding byteOf_def mult_0_right d0 by (rule word8_of_int_shift)
  have "byteOf 1 ?n = c"
    unfolding byteOf_def mult_1_right d1 by (rule word8_of_int_shift)
  then show "byteOf (Suc 0) ?n = c" by simp
  have "8 * 2 = (16::nat)" by simp
  then show "byteOf 2 ?n = b"
    unfolding byteOf_def using d2 word8_of_int_shift [of "uint a" b] by simp
  have "8 * 3 = (24::nat)" by simp
  then show "byteOf 3 ?n = a"
    unfolding byteOf_def using d3 by simp
qed

lemma Ipv4Address_toInt_range:
  "0 \<le> Ipv4Address_toInt ip" "Ipv4Address_toInt ip \<le> 0xffffffff"
proof -
  obtain a b c d where ip: "ip = Ipv4Address a b c d" by (cases ip)
  have "0 \<le> uint a" "uint a \<le> 255" "0 \<le> uint b" "uint b \<le> 255"
       "0 \<le> uint c" "uint c \<le> 255" "0 \<le> uint d" "uint d \<le> 255"
    using uint_bounded [of a] uint_bounded [of b] uint_bounded [of c] uint_bounded [of d] by simp_all
  then show "0 \<le> Ipv4Address_toInt ip" "Ipv4Address_toInt ip \<le> 0xffffffff"
    unfolding ip Ipv4Address_toInt_expand by simp_all
qed

lemma byteOf_and: "byteOf k (x AND y) = byteOf k x AND byteOf k y"
  by (simp add: byteOf_def of_int_and_eq)

lemma byteOf_or: "byteOf k (x OR y) = byteOf k x OR byteOf k y"
  by (simp add: byteOf_def of_int_or_eq)

lemma byteOf_xor: "byteOf k (x XOR y) = byteOf k x XOR byteOf k y"
  by (simp add: byteOf_def of_int_xor_eq)

lemma byteOf_not: "byteOf k (NOT x) = NOT (byteOf k x)"
  unfolding byteOf_def
  by (rule bit_word_eqI) (auto simp add: bit_word_of_int_iff bit_drop_bit_eq bit_not_iff)

lemma Ipv4Address_fromInt_toInt: "Ipv4Address_fromInt (Ipv4Address_toInt ip) = Inr ip"
proof -
  obtain a b c d where ip: "ip = Ipv4Address a b c d" by (cases ip)
  show ?thesis
    using Ipv4Address_toInt_range [of ip]
    by (simp add: Ipv4Address_fromInt_bytes) (simp add: ip byteOf_toInt)
qed

lemma Ipv4Address_bitAnd_bytes:
  "Ipv4Address_bitAnd (Ipv4Address a b c d) (Ipv4Address a' b' c' d')
     = Inr (Ipv4Address (a AND a') (b AND b') (c AND c') (d AND d'))"
  by (simp add: Ipv4Address_bitAnd_def js_and_eq Ipv4Address_fromSignedInt_bytes byteOf_and byteOf_toInt)

lemma Ipv4Address_bitOr_bytes:
  "Ipv4Address_bitOr (Ipv4Address a b c d) (Ipv4Address a' b' c' d')
     = Inr (Ipv4Address (a OR a') (b OR b') (c OR c') (d OR d'))"
  by (simp add: Ipv4Address_bitOr_def js_or_eq Ipv4Address_fromSignedInt_bytes byteOf_or byteOf_toInt)

lemma Ipv4Address_bitXor_bytes:
  "Ipv4Address_bitXor (Ipv4Address a b c d) (Ipv4Address a' b' c' d')
     = Inr (Ipv4Address (a XOR a') (b XOR b') (c XOR c') (d XOR d'))"
  by (simp add: Ipv4Address_bitXor_def js_xor_eq Ipv4Address_fromSignedInt_bytes byteOf_xor byteOf_toInt)

lemma Ipv4Address_bitNot_bytes:
  "Ipv4Address_bitNot (Ipv4Address a b c d) = Inr (Ipv4Address (NOT a) (NOT b) (NOT c) (NOT d))"
proof -
  have "js_and (js_not n) 0xffffffff = signed_take_bit 31 (NOT n)" for n
  proof -
    have "signed_take_bit 31 (4294967295::int) = - 1" by simp
    then show ?thesis
      by (simp add: js_and_def toInt32_signed_take_bit js_not_eq)
  qed
  then show ?thesis
    by (simp add: Ipv4Address_bitNot_def Ipv4Address_fromSignedInt_bytes byteOf_not byteOf_toInt)
qed

lemma Ipv4Address_equals_iff: "Ipv4Address_equals x y \<longleftrightarrow> x = y"
  by (cases x; cases y) (auto simp: Ipv4Address_equals_def)

lemma MacAddress_equals_iff: "MacAddress_equals x y \<longleftrightarrow> x = y"
  by (cases x; cases y) (auto simp: MacAddress_equals_def)

lemma byte_255: "(255::byte) = - 1"
  by simp

lemma byte_and_255: "(x::byte) AND 255 = x" "(255::byte) AND x = x"
  by (simp_all only: byte_255 and.right_neutral and.left_neutral)

lemma byte_or_not_255: "(x::byte) OR NOT 255 = x" "(0::byte) OR NOT 0 = 255"
  by (simp_all only: byte_255 bit.compl_one or.right_neutral or.left_neutral bit.compl_zero)

lemma Router_subnet_mask16:
  "mask16 r a b \<Longrightarrow> Router_subnet r = Inr (Ipv4Address a b 0 0)"
  by (auto simp: mask16_def Router_subnet_def Ipv4Address_bitAnd_bytes byte_and_255)

lemma find_equals_None:
  "find (\<lambda>a. a = ip) xs = None \<longleftrightarrow> ip \<notin> set xs"
  by (auto simp: find_None_iff)

lemma xor_zero_iff: "(x::byte) XOR y = 0 \<longleftrightarrow> x = y"
  by (metis bit.xor_self xor.commute xor.left_neutral xor.assoc)

subsection \<open>The scan for the next free address\<close>

text \<open>One iteration of the scan, for an in-range counter.\<close>

lemma loop_step:
  assumes m: "mask16 r a b" and c0: "0 \<le> cur" and c1: "cur \<le> 0xffffffff"
  shows "Router_getNextFreeIp_loop r sp cur =
     (if \<not> inSubnet16 a b cur
      then Router_getNextFreeIp_loop r sp (cur + jump16 a b cur)
      else if ipOfInt cur \<notin> set sp \<and> \<not> Router_isIpAssigned r (ipOfInt cur)
      then Inr (Some (ipOfInt cur))
      else Router_getNextFreeIp_loop r sp (cur + 1))"
proof -
  from m have mk: "router_subnetMask r = Ipv4Address 255 255 0 0" by (simp add: mask16_def)
  show ?thesis
    apply (subst Router_getNextFreeIp_loop.simps)
    using c0 c1
    apply (simp add: Ipv4Address_fromInt_bytes Router_subnet_mask16 [OF m] mk
        Ipv4Address_bitAnd_bytes Ipv4Address_bitXor_bytes byte_and_255 Ipv4Address_equals_iff
        Ipv4Address_ZeroAddress_def find_equals_None xor_zero_iff Let_def
        ipOfInt_def inSubnet16_def jump16_def)
    done
qed

lemma loop_jump:
  "mask16 r a b \<Longrightarrow> 0 \<le> cur \<Longrightarrow> cur \<le> 0xffffffff \<Longrightarrow> \<not> inSubnet16 a b cur \<Longrightarrow>
   Router_getNextFreeIp_loop r sp cur = Router_getNextFreeIp_loop r sp (cur + jump16 a b cur)"
  by (simp add: loop_step)

lemma loop_hit:
  "mask16 r a b \<Longrightarrow> 0 \<le> cur \<Longrightarrow> cur \<le> 0xffffffff \<Longrightarrow> inSubnet16 a b cur \<Longrightarrow>
   ipOfInt cur \<notin> set sp \<Longrightarrow> \<not> Router_isIpAssigned r (ipOfInt cur) \<Longrightarrow>
   Router_getNextFreeIp_loop r sp cur = Inr (Some (ipOfInt cur))"
  by (simp add: loop_step)

lemma loop_miss:
  "mask16 r a b \<Longrightarrow> 0 \<le> cur \<Longrightarrow> cur \<le> 0xffffffff \<Longrightarrow> inSubnet16 a b cur \<Longrightarrow>
   ipOfInt cur \<in> set sp \<or> Router_isIpAssigned r (ipOfInt cur) \<Longrightarrow>
   Router_getNextFreeIp_loop r sp cur = Router_getNextFreeIp_loop r sp (cur + 1)"
  by (auto simp add: loop_step)

lemma loop_out: "0xffffffff < cur \<Longrightarrow> Router_getNextFreeIp_loop r sp cur = Inr None"
  by (subst Router_getNextFreeIp_loop.simps) simp

lemma loop_neg:
  "cur < 0 \<Longrightarrow> Router_getNextFreeIp_loop r sp cur = Inl CannotConvertToIpv4Address"
  by (subst Router_getNextFreeIp_loop.simps) (simp add: Ipv4Address_fromInt_def)

lemma Ipv4Address_toInt_pos:
  assumes "ip \<noteq> Ipv4Address 0 0 0 0"
  shows "0 < Ipv4Address_toInt ip"
proof -
  obtain a b c d where ip: "ip = Ipv4Address a b c d" by (cases ip)
  define A B C D where "A = uint a" and "B = uint b" and "C = uint c" and "D = uint d"
  have nonneg: "0 \<le> A" "0 \<le> B" "0 \<le> C" "0 \<le> D"
    by (simp_all add: A_def B_def C_def D_def)
  from assms have "0 < A \<or> 0 < B \<or> 0 < C \<or> 0 < D"
    by (simp add: ip less_le uint_0_iff A_def B_def C_def D_def)
  with nonneg have "0 < ((A * 256 + B) * 256 + C) * 256 + D"
    by (simp add: algebra_simps) linarith
  then show ?thesis
    by (simp add: ip Ipv4Address_toInt_def A_def B_def C_def D_def)
qed

lemma jump16_pos: "\<not> inSubnet16 a b cur \<Longrightarrow> 0 < jump16 a b cur"
  unfolding jump16_def inSubnet16_def
  by (rule Ipv4Address_toInt_pos) (auto simp: xor_zero_iff)

lemma ipOfInt_inSubnet16: "inSubnet16 a b cur \<Longrightarrow> \<exists>x y. ipOfInt cur = Ipv4Address a b x y"
  by (simp add: inSubnet16_def ipOfInt_def)

lemma loop_sound:
  assumes m: "mask16 r a b"
  shows "Router_getNextFreeIp_loop r sp cur = Inr (Some ip) \<Longrightarrow>
     (\<exists>x y. ip = Ipv4Address a b x y) \<and> ip \<notin> set sp \<and> \<not> Router_isIpAssigned r ip"
proof (induction "nat (2 ^ 32 - cur)" arbitrary: cur rule: less_induct)
  case less
  show ?case
  proof (cases "0 \<le> cur \<and> cur \<le> 0xffffffff")
    case False
    then have "cur < 0 \<or> 0xffffffff < cur" by auto
    with less.prems show ?thesis by (auto simp: loop_out loop_neg)
  next
    case True
    then have c: "0 \<le> cur" "cur \<le> 0xffffffff" by simp_all
    consider (jump) "\<not> inSubnet16 a b cur"
      | (hit) "inSubnet16 a b cur" "ipOfInt cur \<notin> set sp" "\<not> Router_isIpAssigned r (ipOfInt cur)"
      | (miss) "inSubnet16 a b cur" "ipOfInt cur \<in> set sp \<or> Router_isIpAssigned r (ipOfInt cur)"
      by blast
    then show ?thesis
    proof cases
      case jump
      have k: "0 < jump16 a b cur" using jump by (rule jump16_pos)
      from less.prems have "Router_getNextFreeIp_loop r sp (cur + jump16 a b cur) = Inr (Some ip)"
        unfolding loop_jump [OF m c jump] .
      moreover have "nat (2 ^ 32 - (cur + jump16 a b cur)) < nat (2 ^ 32 - cur)" using k c by simp
      ultimately show ?thesis using less.hyps by blast
    next
      case hit
      from less.prems have "ip = ipOfInt cur"
        unfolding loop_hit [OF m c hit] by simp
      with hit ipOfInt_inSubnet16 [OF hit(1)] show ?thesis by simp
    next
      case miss
      from less.prems have "Router_getNextFreeIp_loop r sp (cur + 1) = Inr (Some ip)"
        unfolding loop_miss [OF m c miss] .
      moreover have "nat (2 ^ 32 - (cur + 1)) < nat (2 ^ 32 - cur)" using c by simp
      ultimately show ?thesis using less.hyps by blast
    qed
  qed
qed

lemma loop_no_throw:
  assumes m: "mask16 r a b"
  shows "0 \<le> cur \<Longrightarrow> \<exists>res. Router_getNextFreeIp_loop r sp cur = Inr res"
proof (induction "nat (2 ^ 32 - cur)" arbitrary: cur rule: less_induct)
  case less
  show ?case
  proof (cases "cur \<le> 0xffffffff")
    case False
    then show ?thesis by (simp add: loop_out)
  next
    case True
    with less.prems have c: "0 \<le> cur" "cur \<le> 0xffffffff" by simp_all
    consider (jump) "\<not> inSubnet16 a b cur"
      | (hit) "inSubnet16 a b cur" "ipOfInt cur \<notin> set sp" "\<not> Router_isIpAssigned r (ipOfInt cur)"
      | (miss) "inSubnet16 a b cur" "ipOfInt cur \<in> set sp \<or> Router_isIpAssigned r (ipOfInt cur)"
      by blast
    then show ?thesis
    proof cases
      case jump
      have k: "0 < jump16 a b cur" using jump by (rule jump16_pos)
      then have "nat (2 ^ 32 - (cur + jump16 a b cur)) < nat (2 ^ 32 - cur)"
          "0 \<le> cur + jump16 a b cur"
        using c by simp_all
      then show ?thesis unfolding loop_jump [OF m c jump] using less.hyps by blast
    next
      case hit
      show ?thesis unfolding loop_hit [OF m c hit] by simp
    next
      case miss
      have "nat (2 ^ 32 - (cur + 1)) < nat (2 ^ 32 - cur)" "0 \<le> cur + 1"
        using c by simp_all
      then show ?thesis unfolding loop_miss [OF m c miss] using less.hyps by blast
    qed
  qed
qed

lemma byteOf_zero: "byteOf k 0 = 0"
  by (simp add: byteOf_def)

lemma ipOfInt_toInt: "ipOfInt (Ipv4Address_toInt ip) = ip"
  by (cases ip) (simp add: ipOfInt_def byteOf_toInt)

lemma toInt_subnet16:
  "Ipv4Address_toInt (Ipv4Address a b x y)
     = Ipv4Address_toInt (Ipv4Address a b 0 0) + (uint x * 256 + uint y)"
  by (simp add: Ipv4Address_toInt_expand)

lemma toInt_base16:
  "Ipv4Address_toInt (Ipv4Address a b 0 0) = (uint a * 256 + uint b) * 65536"
  by (simp add: Ipv4Address_toInt_expand)

lemma low16_range: "0 \<le> uint (x::byte) * 256 + uint (y::byte)" "uint (x::byte) * 256 + uint (y::byte) < 65536"
  using uint_bounded [of x] uint_bounded [of y] by simp_all

lemma inSubnet16_range:
  assumes "Ipv4Address_toInt (Ipv4Address a b 0 0) \<le> cur"
    and "cur < Ipv4Address_toInt (Ipv4Address a b 0 0) + 65536"
  shows "inSubnet16 a b cur"
proof -
  define h where "h = uint a * 256 + uint b"
  define t where "t = cur - h * 65536"
  have t: "0 \<le> t" "t < 65536" "cur = t + h * 65536"
    using assms by (simp_all add: t_def h_def toInt_base16)
  have "cur div 65536 = h" using t by simp
  then have d16: "drop_bit 16 cur = uint a * 256 + uint b"
    by (simp add: drop_bit_eq_div h_def)
  have "drop_bit 24 cur = drop_bit 8 (drop_bit 16 cur)" by simp
  also have "\<dots> = (uint a * 256 + uint b) div 256"
    unfolding d16 by (simp add: drop_bit_eq_div)
  also have "\<dots> = uint a" by (rule div_256_shift)
  finally have d24: "drop_bit 24 cur = uint a" .
  have "byteOf 2 cur = b"
    unfolding byteOf_def using d16 word8_of_int_shift [of "uint a" b] by simp
  moreover have "byteOf 3 cur = a"
    unfolding byteOf_def using d24 by simp
  ultimately show ?thesis by (simp add: inSubnet16_def)
qed

lemma jump16_from_zero: "jump16 a b 0 = Ipv4Address_toInt (Ipv4Address a b 0 0)"
  by (simp add: jump16_def byteOf_zero)

lemma inSubnet16_zero: "inSubnet16 a b 0 \<Longrightarrow> Ipv4Address_toInt (Ipv4Address a b 0 0) = 0"
  by (simp add: inSubnet16_def byteOf_zero Ipv4Address_toInt_expand)

lemma loop_complete:
  assumes m: "mask16 r a b"
  shows "Router_getNextFreeIp_loop r sp cur = Inr None \<Longrightarrow>
     cur = 0 \<or> Ipv4Address_toInt (Ipv4Address a b 0 0) \<le> cur \<Longrightarrow>
     cur \<le> Ipv4Address_toInt (Ipv4Address a b x y) \<Longrightarrow>
     Ipv4Address a b x y \<notin> set sp \<Longrightarrow>
     Router_isIpAssigned r (Ipv4Address a b x y)"
proof (induction "nat (2 ^ 32 - cur)" arbitrary: cur rule: less_induct)
  case less
  let ?base = "Ipv4Address_toInt (Ipv4Address a b 0 0)"
  let ?target = "Ipv4Address_toInt (Ipv4Address a b x y)"
  have base0: "0 \<le> ?base" by (rule Ipv4Address_toInt_range)
  have tgt: "?base \<le> ?target" "?target < ?base + 65536" "?target \<le> 0xffffffff"
    using low16_range [of x y] Ipv4Address_toInt_range(2) [of "Ipv4Address a b x y"]
    by (simp_all add: toInt_subnet16 [of a b x y])
  from less.prems(2) base0 have c0: "0 \<le> cur" by auto
  from less.prems(3) tgt have c1: "cur \<le> 0xffffffff" by simp
  note c = c0 c1
  consider (jump) "\<not> inSubnet16 a b cur"
    | (hit) "inSubnet16 a b cur" "ipOfInt cur \<notin> set sp" "\<not> Router_isIpAssigned r (ipOfInt cur)"
    | (miss) "inSubnet16 a b cur" "ipOfInt cur \<in> set sp \<or> Router_isIpAssigned r (ipOfInt cur)"
    by blast
  then show ?case
  proof cases
    case jump
    have "cur = 0"
    proof (rule ccontr)
      assume "cur \<noteq> 0"
      with less.prems(2) have "?base \<le> cur" by simp
      moreover from less.prems(3) tgt have "cur < ?base + 65536" by simp
      ultimately have "inSubnet16 a b cur" by (rule inSubnet16_range)
      with jump show False by simp
    qed
    have k: "0 < jump16 a b cur" using jump by (rule jump16_pos)
    have nxt: "cur + jump16 a b cur = ?base"
      using \<open>cur = 0\<close> by (simp add: jump16_from_zero)
    from less.prems(1) have "Router_getNextFreeIp_loop r sp (cur + jump16 a b cur) = Inr None"
      unfolding loop_jump [OF m c jump] .
    moreover have "nat (2 ^ 32 - (cur + jump16 a b cur)) < nat (2 ^ 32 - cur)" using k c by simp
    moreover have "cur + jump16 a b cur = 0 \<or> ?base \<le> cur + jump16 a b cur"
      using nxt by simp
    moreover have "cur + jump16 a b cur \<le> ?target" using nxt tgt by simp
    ultimately show ?thesis using less.hyps less.prems(4) by blast
  next
    case hit
    from less.prems(1) show ?thesis unfolding loop_hit [OF m c hit] by simp
  next
    case miss
    show ?thesis
    proof (cases "cur = ?target")
      case True
      then have "ipOfInt cur = Ipv4Address a b x y" by (simp add: ipOfInt_toInt)
      with miss(2) less.prems(4) show ?thesis by simp
    next
      case False
      with less.prems(3) have le: "cur + 1 \<le> ?target" by simp
      have "?base \<le> cur + 1"
      proof (cases "cur = 0")
        case True
        with miss(1) have "?base = 0" by (simp add: inSubnet16_zero)
        with True show ?thesis by simp
      next
        case False
        with less.prems(2) show ?thesis by simp
      qed
      then have ok: "cur + 1 = 0 \<or> ?base \<le> cur + 1" by simp
      from less.prems(1) have "Router_getNextFreeIp_loop r sp (cur + 1) = Inr None"
        unfolding loop_miss [OF m c miss] .
      moreover have "nat (2 ^ 32 - (cur + 1)) < nat (2 ^ 32 - cur)" using c by simp
      ultimately show ?thesis using less.hyps ok le less.prems(4) by blast
    qed
  qed
qed

lemma hexDigit_inj: "m < 16 \<Longrightarrow> n < 16 \<Longrightarrow> hexDigit m = hexDigit n \<Longrightarrow> m = n"
proof -
  assume a: "m < 16" "n < 16" "hexDigit m = hexDigit n"
  have d: "distinct ''0123456789abcdef''" by simp
  have l: "length ''0123456789abcdef'' = 16" by simp
  from a have "''0123456789abcdef'' ! m = ''0123456789abcdef'' ! n"
    by (simp add: hexDigit_def)
  with d a l show "m = n"
    using nth_eq_iff_index_eq [of "''0123456789abcdef''" m n] by simp
qed

lemma byte_toString16_padStart2_eq:
  "byte_toString16_padStart2 b = [hexDigit (unat b div 16), hexDigit (unat b mod 16)]"
  by (simp add: byte_toString16_padStart2_def Let_def hexDigit_def)

lemma byte_toString16_padStart2_inj:
  assumes "byte_toString16_padStart2 x = byte_toString16_padStart2 y"
  shows "x = y"
proof -
  have bx: "unat x < 256" and by': "unat y < 256"
    using unsigned_less [of x, where ?'a = nat] unsigned_less [of y, where ?'a = nat] by simp_all
  from assms have h: "hexDigit (unat x div 16) = hexDigit (unat y div 16)"
    and l: "hexDigit (unat x mod 16) = hexDigit (unat y mod 16)"
    by (simp_all add: byte_toString16_padStart2_eq)
  have "unat x div 16 = unat y div 16"
    using h bx by' by (intro hexDigit_inj) simp_all
  moreover have "unat x mod 16 = unat y mod 16"
    using l by (intro hexDigit_inj) simp_all
  ultimately have "unat x = unat y"
    by (metis div_mult_mod_eq)
  then show ?thesis by (rule word_unat_eq_iff [THEN iffD2])
qed

lemma MacAddress_toString_inj:
  assumes "MacAddress_toString m1 = MacAddress_toString m2"
  shows "m1 = m2"
proof -
  obtain a b c d e f where m1: "m1 = MacAddress a b c d e f" by (cases m1)
  obtain a' b' c' d' e' f' where m2: "m2 = MacAddress a' b' c' d' e' f'" by (cases m2)
  from assms have
    "byte_toString16_padStart2 a = byte_toString16_padStart2 a'"
    "byte_toString16_padStart2 b = byte_toString16_padStart2 b'"
    "byte_toString16_padStart2 c = byte_toString16_padStart2 c'"
    "byte_toString16_padStart2 d = byte_toString16_padStart2 d'"
    "byte_toString16_padStart2 e = byte_toString16_padStart2 e'"
    "byte_toString16_padStart2 f = byte_toString16_padStart2 f'"
    unfolding m1 m2 MacAddress_toString_def
    by (simp_all add: byte_toString16_padStart2_eq)
  then show ?thesis
    unfolding m1 m2 by (simp add: byte_toString16_padStart2_inj)
qed

lemma allocatable16_iff:
  "allocatable16 a b ip \<longleftrightarrow>
     (\<exists>x y. ip = Ipv4Address a b x y) \<and> ip \<notin> set [Ipv4Address a b 0 0, Ipv4Address a b 255 255]"
  by (cases ip) (auto simp: allocatable16_def)

lemma getNextFreeIp_mask16:
  assumes m: "mask16 r a b"
  shows "Router_priv_getNextFreeIp r =
     Router_getNextFreeIp_loop r [Ipv4Address a b 0 0, Ipv4Address a b 255 255] 0"
proof -
  from m have mk: "router_subnetMask r = Ipv4Address 255 255 0 0" by (simp add: mask16_def)
  have n: "Ipv4Address_bitNot (Ipv4Address 255 255 0 0) = Inr (Ipv4Address 0 0 255 255)"
    unfolding Ipv4Address_bitNot_bytes by (simp only: byte_255 bit.compl_one bit.compl_zero)
  show ?thesis
    by (simp add: Router_priv_getNextFreeIp_def Router_subnet_mask16 [OF m] mk n
        Ipv4Address_bitOr_bytes)
qed

lemma getNextFreeIp_result:
  assumes m: "mask16 r a b"
  shows "\<exists>res. Router_priv_getNextFreeIp r = Inr res \<and>
     (\<forall>ip. res = Some ip \<longrightarrow> allocatable16 a b ip \<and> \<not> Router_isIpAssigned r ip) \<and>
     (res = None \<longleftrightarrow> (\<forall>ip. allocatable16 a b ip \<longrightarrow> Router_isIpAssigned r ip))"
proof -
  let ?sp = "[Ipv4Address a b 0 0, Ipv4Address a b 255 255]"
  from loop_no_throw [OF m, of 0 ?sp]
  obtain res where res: "Router_getNextFreeIp_loop r ?sp 0 = Inr res" by auto
  have snd: "allocatable16 a b ip \<and> \<not> Router_isIpAssigned r ip" if "res = Some ip" for ip
    using loop_sound [OF m, of ?sp 0 ip] res that by (simp add: allocatable16_iff)
  have cmp: "Router_isIpAssigned r ip" if "res = None" "allocatable16 a b ip" for ip
  proof -
    from that(2) obtain x y where ip: "ip = Ipv4Address a b x y" and nsp: "ip \<notin> set ?sp"
      by (auto simp: allocatable16_iff)
    have "0 \<le> Ipv4Address_toInt (Ipv4Address a b x y)" by (rule Ipv4Address_toInt_range)
    with loop_complete [OF m, of ?sp 0 x y] res that(1) nsp ip show ?thesis by simp
  qed
  have "res = None" if "\<forall>ip. allocatable16 a b ip \<longrightarrow> Router_isIpAssigned r ip"
  proof (cases res)
    case None
    then show ?thesis .
  next
    case (Some ip)
    with snd that show ?thesis by blast
  qed
  with snd cmp res show ?thesis
    unfolding getNextFreeIp_mask16 [OF m] by blast
qed

lemma Router_inv_mask16: "Router_inv mac a b c d r \<Longrightarrow> mask16 r a b"
  by (simp add: Router_inv_def mask16_def)

lemma Router_inv_new:
  "Router_inv mac a b c d (Router_new mac (Ipv4Address a b c d) (Ipv4Address 255 255 0 0))"
  by (simp add: Router_inv_def Router_new_def Router_priv_registerDevice_def Router_asDevice_def
      recorded_def)

lemma recorded_new:
  "recorded (Router_new mac ip msk) (Router_asDevice mac ip)"
  by (simp add: Router_new_def Router_priv_registerDevice_def Router_asDevice_def recorded_def)

lemma registerDevice_step:
  assumes inv: "Router_inv mac a b c d r"
  shows "\<exists>res r'. Router_registerDevice m r = Inr (res, r') \<and> Router_inv mac a b c d r' \<and>
     (\<forall>dev. recorded r dev \<longrightarrow> recorded r' dev) \<and>
     (\<forall>dev. res = Some dev \<longrightarrow> recorded r' dev \<and> dev_mac dev = m \<and> allocatable16 a b (dev_ip dev)) \<and>
     (res = None \<longleftrightarrow> (\<forall>ip. allocatable16 a b ip \<longrightarrow> Router_isIpAssigned r ip))"
proof -
  from getNextFreeIp_result [OF Router_inv_mask16 [OF inv]]
  obtain nx where nx: "Router_priv_getNextFreeIp r = Inr nx"
    and good: "\<And>ip. nx = Some ip \<Longrightarrow> allocatable16 a b ip \<and> \<not> Router_isIpAssigned r ip"
    and none: "nx = None \<longleftrightarrow> (\<forall>ip. allocatable16 a b ip \<longrightarrow> Router_isIpAssigned r ip)"
    by blast
  show ?thesis
  proof (cases nx)
    case None
    have "Router_registerDevice m r = Inr (None, r)"
      using nx None by (simp add: Router_registerDevice_def)
    moreover have "(None :: Device option) = None \<longleftrightarrow> (\<forall>ip. allocatable16 a b ip \<longrightarrow> Router_isIpAssigned r ip)"
      using none None by simp
    ultimately show ?thesis using inv by blast
  next
    case (Some ip)
    define dev where "dev = \<lparr> dev_mac = m, dev_ip = ip, dev_isConfirmed = False \<rparr>"
    define r' where "r' = Router_priv_registerDevice dev r"
    from good [OF Some] have al: "allocatable16 a b ip"
      and free: "addressTable r (Ipv4Address_toInt ip) = None"
      by (simp_all add: Router_isIpAssigned_def)
    have reg: "Router_registerDevice m r = Inr (Some dev, r')"
      using nx Some by (simp add: Router_registerDevice_def dev_def r'_def Let_def)
    have keep: "recorded r' x" if "recorded r x" for x
      using that free by (auto simp: recorded_def r'_def Router_priv_registerDevice_def dev_def)
    have new: "recorded r' dev"
      by (simp add: recorded_def r'_def Router_priv_registerDevice_def dev_def)
    have inv': "Router_inv mac a b c d r'"
      unfolding Router_inv_def
    proof (intro conjI allI impI)
      show "router_subnetMask r' = Ipv4Address 255 255 0 0" "router_ip r' = Ipv4Address a b c d"
        using inv by (simp_all add: Router_inv_def r'_def Router_priv_registerDevice_def)
    next
      fix k x assume kx: "devices r' k = Some x"
      show "k = MacAddress_toString (dev_mac x)" "recorded r' x"
        "x = Router_asDevice mac (Ipv4Address a b c d) \<or> allocatable16 a b (dev_ip x)"
      proof -
        consider (fresh) "k = MacAddress_toString m" "x = dev"
          | (old) "devices r k = Some x"
          using kx by (cases "k = MacAddress_toString m")
            (simp_all add: r'_def Router_priv_registerDevice_def dev_def)
        then have "k = MacAddress_toString (dev_mac x) \<and> recorded r' x \<and>
          (x = Router_asDevice mac (Ipv4Address a b c d) \<or> allocatable16 a b (dev_ip x))"
        proof cases
          case fresh
          then show ?thesis using new al by (simp add: dev_def)
        next
          case old
          with inv have "k = MacAddress_toString (dev_mac x) \<and> recorded r x \<and>
            (x = Router_asDevice mac (Ipv4Address a b c d) \<or> allocatable16 a b (dev_ip x))"
            unfolding Router_inv_def by blast
          with keep show ?thesis by blast
        qed
        then show "k = MacAddress_toString (dev_mac x)" "recorded r' x"
          "x = Router_asDevice mac (Ipv4Address a b c d) \<or> allocatable16 a b (dev_ip x)"
          by simp_all
      qed
    qed
    from none Some have nn: "\<not> (\<forall>ip. allocatable16 a b ip \<longrightarrow> Router_isIpAssigned r ip)" by simp
    have dm: "dev_mac dev = m" "dev_ip dev = ip" by (simp_all add: dev_def)
    show ?thesis
    proof (intro exI [of _ "Some dev"] exI [of _ r'] conjI allI impI)
      show "Router_registerDevice m r = Inr (Some dev, r')" by (rule reg)
      show "Router_inv mac a b c d r'" by (rule inv')
      show "recorded r' x" if "recorded r x" for x using that by (rule keep)
      show "recorded r' x" if "Some dev = Some x" for x using that new by simp
      show "dev_mac x = m" if "Some dev = Some x" for x using that dm by auto
      show "allocatable16 a b (dev_ip x)" if "Some dev = Some x" for x using that dm al by auto
      show "(Some dev = None) = (\<forall>ip. allocatable16 a b ip \<longrightarrow> Router_isIpAssigned r ip)"
        using nn by simp
    qed
  qed
qed

lemma call_step:
  assumes inv: "Router_inv mac a b c d r"
  shows "\<exists>res r'. Router_call cl r = Inr (res, r') \<and> Router_inv mac a b c d r' \<and>
     (\<forall>dev. recorded r dev \<longrightarrow> recorded r' dev) \<and>
     (\<forall>dev. res = Some dev \<longrightarrow> recorded r' dev \<and> dev_mac dev = RouterCall_mac cl \<and>
        (allocatable16 a b (dev_ip dev) \<or>
         cl = GetOrRegisterDevice mac \<and> dev = Router_asDevice mac (Ipv4Address a b c d)))"
proof (cases cl)
  case (RegisterDevice m)
  from registerDevice_step [OF inv, of m] show ?thesis
    unfolding RegisterDevice by simp blast
next
  case (GetOrRegisterDevice m)
  show ?thesis
  proof (cases "Router_getDevice_mac r m")
    case None
    then have "Router_call cl r = Router_registerDevice m r"
      by (simp add: GetOrRegisterDevice Router_getOrRegisterDevice_def)
    with registerDevice_step [OF inv, of m] show ?thesis
      unfolding GetOrRegisterDevice by simp blast
  next
    case (Some dev)
    then have dv: "devices r (MacAddress_toString m) = Some dev"
      by (simp add: Router_getDevice_mac_def)
    with inv have p: "MacAddress_toString m = MacAddress_toString (dev_mac dev)" "recorded r dev"
      "dev = Router_asDevice mac (Ipv4Address a b c d) \<or> allocatable16 a b (dev_ip dev)"
      unfolding Router_inv_def by blast+
    from p(1) have mm: "dev_mac dev = m" using MacAddress_toString_inj by metis
    have rm: "m = mac" if "dev = Router_asDevice mac (Ipv4Address a b c d)"
      using that mm by (simp add: Router_asDevice_def)
    have call: "Router_call cl r = Inr (Some dev, r)"
      using Some by (simp add: GetOrRegisterDevice Router_getOrRegisterDevice_def)
    show ?thesis
    proof (intro exI [of _ "Some dev"] exI [of _ r] conjI allI impI)
      show "Router_call cl r = Inr (Some dev, r)" by (rule call)
      show "Router_inv mac a b c d r" by (rule inv)
      show "recorded r x" if "recorded r x" for x by (rule that)
      show "recorded r x" if "Some dev = Some x" for x using that p(2) by simp
      show "dev_mac x = RouterCall_mac cl" if "Some dev = Some x" for x
        using that mm by (auto simp: GetOrRegisterDevice)
      show "allocatable16 a b (dev_ip x) \<or>
         cl = GetOrRegisterDevice mac \<and> x = Router_asDevice mac (Ipv4Address a b c d)"
        if "Some dev = Some x" for x
        using that p(3) rm by (auto simp: GetOrRegisterDevice)
    qed
  qed
qed

lemma calls_steps:
  "Router_inv mac a b c d r \<Longrightarrow>
   \<exists>results r'. Router_calls cs r = Inr (results, r') \<and> Router_inv mac a b c d r' \<and>
     length results = length cs \<and>
     (\<forall>dev. recorded r dev \<longrightarrow> recorded r' dev) \<and>
     (\<forall>i dev. i < length cs \<longrightarrow> results ! i = Some dev \<longrightarrow>
        recorded r' dev \<and> dev_mac dev = RouterCall_mac (cs ! i) \<and>
        (allocatable16 a b (dev_ip dev) \<or>
         cs ! i = GetOrRegisterDevice mac \<and> dev = Router_asDevice mac (Ipv4Address a b c d)))"
proof (induction cs arbitrary: r)
  case Nil
  then show ?case by simp
next
  case (Cons cl cs)
  from call_step [OF Cons.prems, of cl]
  obtain res r1 where c1: "Router_call cl r = Inr (res, r1)" and inv1: "Router_inv mac a b c d r1"
    and keep1: "\<And>dev. recorded r dev \<Longrightarrow> recorded r1 dev"
    and res1: "\<And>dev. res = Some dev \<Longrightarrow> recorded r1 dev \<and> dev_mac dev = RouterCall_mac cl \<and>
        (allocatable16 a b (dev_ip dev) \<or>
         cl = GetOrRegisterDevice mac \<and> dev = Router_asDevice mac (Ipv4Address a b c d))"
    by blast
  from Cons.IH [OF inv1]
  obtain results r2 where c2: "Router_calls cs r1 = Inr (results, r2)"
    and inv2: "Router_inv mac a b c d r2" and len: "length results = length cs"
    and keep2: "\<And>dev. recorded r1 dev \<Longrightarrow> recorded r2 dev"
    and res2: "\<And>i dev. i < length cs \<Longrightarrow> results ! i = Some dev \<Longrightarrow>
        recorded r2 dev \<and> dev_mac dev = RouterCall_mac (cs ! i) \<and>
        (allocatable16 a b (dev_ip dev) \<or>
         cs ! i = GetOrRegisterDevice mac \<and> dev = Router_asDevice mac (Ipv4Address a b c d))"
    by blast
  show ?case
  proof (intro exI [of _ "res # results"] exI [of _ r2] conjI allI impI)
    show "Router_calls (cl # cs) r = Inr (res # results, r2)" using c1 c2 by simp
    show "Router_inv mac a b c d r2" by (rule inv2)
    show "length (res # results) = length (cl # cs)" using len by simp
    show "recorded r2 dev" if "recorded r dev" for dev using that keep1 keep2 by blast
  next
    fix i dev assume i: "i < length (cl # cs)" and r: "(res # results) ! i = Some dev"
    have "recorded r2 dev \<and> dev_mac dev = RouterCall_mac ((cl # cs) ! i) \<and>
          (allocatable16 a b (dev_ip dev) \<or>
           (cl # cs) ! i = GetOrRegisterDevice mac \<and> dev = Router_asDevice mac (Ipv4Address a b c d))"
    proof (cases i)
      case 0
      with r have "res = Some dev" by simp
      from res1 [OF this] keep2 show ?thesis using 0 by auto
    next
      case (Suc j)
      with i r have "j < length cs" "results ! j = Some dev" by simp_all
      from res2 [OF this] show ?thesis using Suc by simp
    qed
    then show "recorded r2 dev" "dev_mac dev = RouterCall_mac ((cl # cs) ! i)"
      "allocatable16 a b (dev_ip dev) \<or>
           (cl # cs) ! i = GetOrRegisterDevice mac \<and> dev = Router_asDevice mac (Ipv4Address a b c d)"
      by simp_all
  qed
qed

lemma recorded_same_ip:
  "recorded r d1 \<Longrightarrow> recorded r d2 \<Longrightarrow> dev_ip d1 = dev_ip d2 \<Longrightarrow> dev_mac d1 = dev_mac d2"
  by (simp add: recorded_def)

text \<open>
  Claim C8. A router with the subnet mask 255.255.0.0, any MAC address and any address
  \<open>a.b.c.d\<close> is created and receives any sequence of \<open>registerDevice\<close> and
  \<open>getOrRegisterDevice\<close> calls. No call throws. Every device returned carries the MAC
  address asked for; its IP address is \<open>a.b.x.y\<close> with \<open>x.y\<close> neither \<open>0.0\<close> nor
  \<open>255.255\<close>, unless \<open>getOrRegisterDevice\<close> was asked for the router's own MAC address and
  returned the router itself. Among the router and all devices returned, two with distinct
  MAC addresses have distinct IP addresses. In the state reached, \<open>registerDevice\<close> returns
  \<open>undefined\<close> exactly when every such address \<open>a.b.x.y\<close> is assigned.
\<close>

theorem Router_ip_allocation:
  "\<exists>results r.
     Router_calls calls (Router_new mac (Ipv4Address a b c d) (Ipv4Address 255 255 0 0)) = Inr (results, r) \<and>
     length results = length calls \<and>
     (\<forall>i dev. i < length calls \<longrightarrow> results ! i = Some dev \<longrightarrow>
        dev_mac dev = RouterCall_mac (calls ! i) \<and>
        (allocatable16 a b (dev_ip dev) \<or>
         calls ! i = GetOrRegisterDevice mac \<and> dev = Router_asDevice mac (Ipv4Address a b c d))) \<and>
     (\<forall>d1 d2. Some d1 \<in> set (Some (Router_asDevice mac (Ipv4Address a b c d)) # results) \<longrightarrow>
        Some d2 \<in> set (Some (Router_asDevice mac (Ipv4Address a b c d)) # results) \<longrightarrow>
        dev_mac d1 \<noteq> dev_mac d2 \<longrightarrow> dev_ip d1 \<noteq> dev_ip d2) \<and>
     (\<forall>m. (\<exists>r'. Router_registerDevice m r = Inr (None, r')) \<longleftrightarrow>
        (\<forall>ip. allocatable16 a b ip \<longrightarrow> Router_isIpAssigned r ip))"
proof -
  let ?ip = "Ipv4Address a b c d"
  let ?r0 = "Router_new mac ?ip (Ipv4Address 255 255 0 0)"
  let ?self = "Router_asDevice mac ?ip"
  have inv0: "Router_inv mac a b c d ?r0" by (rule Router_inv_new)
  from calls_steps [OF inv0, of calls]
  obtain results r where run: "Router_calls calls ?r0 = Inr (results, r)"
    and inv: "Router_inv mac a b c d r" and len: "length results = length calls"
    and keep: "\<And>dev. recorded ?r0 dev \<Longrightarrow> recorded r dev"
    and res: "\<And>i dev. i < length calls \<Longrightarrow> results ! i = Some dev \<Longrightarrow>
        recorded r dev \<and> dev_mac dev = RouterCall_mac (calls ! i) \<and>
        (allocatable16 a b (dev_ip dev) \<or>
         calls ! i = GetOrRegisterDevice mac \<and> dev = ?self)"
    by blast
  have rec: "recorded r dev" if "Some dev \<in> set (Some ?self # results)" for dev
  proof (cases "dev = ?self")
    case True
    then show ?thesis using keep recorded_new by simp
  next
    case False
    with that have "Some dev \<in> set results" by simp
    then obtain i where "i < length results" "results ! i = Some dev"
      by (auto simp: in_set_conv_nth)
    with res len show ?thesis by simp
  qed
  have uniq: "dev_ip d1 \<noteq> dev_ip d2"
    if "Some d1 \<in> set (Some ?self # results)" "Some d2 \<in> set (Some ?self # results)"
      "dev_mac d1 \<noteq> dev_mac d2" for d1 d2
    using recorded_same_ip [OF rec [OF that(1)] rec [OF that(2)]] that(3) by blast
  have full: "(\<exists>r'. Router_registerDevice m r = Inr (None, r')) \<longleftrightarrow>
        (\<forall>ip. allocatable16 a b ip \<longrightarrow> Router_isIpAssigned r ip)" for m
    using registerDevice_step [OF inv, of m] by auto
  show ?thesis
  proof (intro exI [of _ results] exI [of _ r] conjI allI impI)
    show "Router_calls calls ?r0 = Inr (results, r)" by (rule run)
    show "length results = length calls" by (rule len)
    show "dev_mac dev = RouterCall_mac (calls ! i)"
      if "i < length calls" "results ! i = Some dev" for i dev using res that by blast
    show "allocatable16 a b (dev_ip dev) \<or>
         calls ! i = GetOrRegisterDevice mac \<and> dev = ?self"
      if "i < length calls" "results ! i = Some dev" for i dev using res that by blast
    show "dev_ip d1 \<noteq> dev_ip d2"
      if "Some d1 \<in> set (Some ?self # results)" "Some d2 \<in> set (Some ?self # results)"
      "dev_mac d1 \<noteq> dev_mac d2" for d1 d2 using that by (rule uniq)
    show "(\<exists>r'. Router_registerDevice m r = Inr (None, r')) =
        (\<forall>ip. allocatable16 a b ip \<longrightarrow> Router_isIpAssigned r ip)" for m by (rule full)
  qed
qed

theorem Router_ip_allocation_witness:
  "\<exists>results r.
     Router_calls
       [RegisterDevice (MacAddress 0x00 0x22 0x15 0x64 0x7b 0x90),
        GetOrRegisterDevice (MacAddress 0xaa 0xbb 0xcc 0xdd 0xee 0xff),
        GetOrRegisterDevice (MacAddress 0x00 0x22 0x15 0x64 0x7b 0x90)]
       (Router_new (MacAddress 0x00 0x0c 0x13 0x37 0x42 0x69) (Ipv4Address 192 168 13 37)
          (Ipv4Address 255 255 0 0)) = Inr (results, r) \<and>
     results =
       [Some \<lparr> dev_mac = MacAddress 0x00 0x22 0x15 0x64 0x7b 0x90,
                dev_ip = Ipv4Address 192 168 0 1, dev_isConfirmed = False \<rparr>,
        Some \<lparr> dev_mac = MacAddress 0xaa 0xbb 0xcc 0xdd 0xee 0xff,
                dev_ip = Ipv4Address 192 168 0 2, dev_isConfirmed = False \<rparr>,
        Some \<lparr> dev_mac = MacAddress 0x00 0x22 0x15 0x64 0x7b 0x90,
                dev_ip = Ipv4Address 192 168 0 1, dev_isConfirmed = False \<rparr>] \<and>
     allocatable16 192 168 (Ipv4Address 192 168 0 1) \<and>
     Ipv4Address 192 168 0 1 \<noteq> Ipv4Address 192 168 0 2"
proof -
  let ?m1 = "MacAddress 0x00 0x22 0x15 0x64 0x7b 0x90"
  let ?m2 = "MacAddress 0xaa 0xbb 0xcc 0xdd 0xee 0xff"
  let ?calls = "[RegisterDevice ?m1, GetOrRegisterDevice ?m2, GetOrRegisterDevice ?m1]"
  let ?r0 = "Router_new (MacAddress 0x00 0x0c 0x13 0x37 0x42 0x69) (Ipv4Address 192 168 13 37)
          (Ipv4Address 255 255 0 0)"
  let ?d1 = "\<lparr> dev_mac = ?m1, dev_ip = Ipv4Address 192 168 0 1, dev_isConfirmed = False \<rparr>"
  let ?d2 = "\<lparr> dev_mac = ?m2, dev_ip = Ipv4Address 192 168 0 2, dev_isConfirmed = False \<rparr>"
  from Router_ip_allocation [of ?calls "MacAddress 0x00 0x0c 0x13 0x37 0x42 0x69" 192 168 13 37]
  obtain results r where run: "Router_calls ?calls ?r0 = Inr (results, r)"
    and each: "\<And>i dev. i < length ?calls \<Longrightarrow> results ! i = Some dev \<Longrightarrow>
        dev_mac dev = RouterCall_mac (?calls ! i) \<and>
        (allocatable16 192 168 (dev_ip dev) \<or>
         ?calls ! i = GetOrRegisterDevice (MacAddress 0x00 0x0c 0x13 0x37 0x42 0x69) \<and>
         dev = Router_asDevice (MacAddress 0x00 0x0c 0x13 0x37 0x42 0x69) (Ipv4Address 192 168 13 37))"
    and uniq: "\<And>d1 d2.
        Some d1 \<in> set (Some (Router_asDevice (MacAddress 0x00 0x0c 0x13 0x37 0x42 0x69)
                                (Ipv4Address 192 168 13 37)) # results) \<Longrightarrow>
        Some d2 \<in> set (Some (Router_asDevice (MacAddress 0x00 0x0c 0x13 0x37 0x42 0x69)
                                (Ipv4Address 192 168 13 37)) # results) \<Longrightarrow>
        dev_mac d1 \<noteq> dev_mac d2 \<Longrightarrow> dev_ip d1 \<noteq> dev_ip d2"
    by blast
  have "map_sum id fst (Router_calls ?calls ?r0) = Inr [Some ?d1, Some ?d2, Some ?d1]"
    by code_simp
  with run have results: "results = [Some ?d1, Some ?d2, Some ?d1]" by simp
  have "(0::nat) < length ?calls" by simp
  moreover have "results ! 0 = Some ?d1" by (simp add: results)
  ultimately have "allocatable16 192 168 (dev_ip ?d1)"
    using each [of 0 ?d1] by simp
  moreover have "dev_ip ?d1 \<noteq> dev_ip ?d2"
    by (rule uniq) (simp_all add: results)
  ultimately show ?thesis using run results by simp
qed

subsection \<open>The ARP responder of the router\<close>

lemma Ipv4Address_toInt_inj: "Ipv4Address_toInt x = Ipv4Address_toInt y \<Longrightarrow> x = y"
  by (metis ipOfInt_toInt)

lemma tablesLinked_new: "tablesLinked (Router_new mac ip msk)"
  by (simp add: tablesLinked_def Router_new_def Router_priv_registerDevice_def Router_asDevice_def)

lemma tablesLinked_register:
  assumes "tablesLinked r"
  shows "tablesLinked (Router_priv_registerDevice dev r)"
  using assms unfolding tablesLinked_def Router_priv_registerDevice_def
  by (auto split: if_splits)

lemma addressTable_register:
  assumes "addressTable (Router_priv_registerDevice dev r) k = Some m"
  shows "addressTable r k = Some m \<or> k = Ipv4Address_toInt (dev_ip dev) \<and> m = dev_mac dev"
  using assms unfolding Router_priv_registerDevice_def
  by (auto split: if_splits)

lemma registerDevice_tables:
  assumes "Router_registerDevice mc r = Inr (res, r')" "tablesLinked r"
  shows "tablesLinked r' \<and>
     (\<forall>k m. addressTable r' k = Some m \<longrightarrow>
        addressTable r k = Some m \<or>
        (\<exists>dev. res = Some dev \<and> k = Ipv4Address_toInt (dev_ip dev) \<and> m = dev_mac dev))"
proof (cases "Router_priv_getNextFreeIp r")
  case (Inl e)
  with assms(1) show ?thesis by (simp add: Router_registerDevice_def)
next
  case (Inr nx)
  show ?thesis
  proof (cases nx)
    case None
    with Inr assms show ?thesis by (simp add: Router_registerDevice_def)
  next
    case (Some ip)
    define dev where "dev = \<lparr> dev_mac = mc, dev_ip = ip, dev_isConfirmed = False \<rparr>"
    from Inr Some assms(1) have res: "res = Some dev" and r': "r' = Router_priv_registerDevice dev r"
      by (simp_all add: Router_registerDevice_def Let_def dev_def)
    show ?thesis
      using tablesLinked_register [OF assms(2), of dev] addressTable_register [of dev r]
      unfolding res r' by blast
  qed
qed

lemma call_tables:
  assumes "Router_call cl r = Inr (res, r')" "tablesLinked r"
  shows "tablesLinked r' \<and>
     (\<forall>k m. addressTable r' k = Some m \<longrightarrow>
        addressTable r k = Some m \<or>
        (\<exists>dev. res = Some dev \<and> k = Ipv4Address_toInt (dev_ip dev) \<and> m = dev_mac dev))"
proof (cases cl)
  case (RegisterDevice mc)
  with assms registerDevice_tables [of mc r res r'] show ?thesis by simp
next
  case (GetOrRegisterDevice mc)
  show ?thesis
  proof (cases "Router_getDevice_mac r mc")
    case None
    with assms GetOrRegisterDevice have "Router_registerDevice mc r = Inr (res, r')"
      by (simp add: Router_getOrRegisterDevice_def)
    from registerDevice_tables [OF this assms(2)] show ?thesis .
  next
    case (Some dev)
    with assms GetOrRegisterDevice have "r' = r"
      by (simp add: Router_getOrRegisterDevice_def)
    with assms(2) show ?thesis by simp
  qed
qed

lemma calls_tables:
  "Router_calls cs r = Inr (results, r') \<Longrightarrow> tablesLinked r \<Longrightarrow>
   tablesLinked r' \<and>
     (\<forall>k m. addressTable r' k = Some m \<longrightarrow>
        addressTable r k = Some m \<or>
        (\<exists>dev. Some dev \<in> set results \<and> k = Ipv4Address_toInt (dev_ip dev) \<and> m = dev_mac dev))"
proof (induction cs arbitrary: r results)
  case Nil
  then show ?case by simp
next
  case (Cons cl cs)
  from Cons.prems(1) obtain res r1 where c1: "Router_call cl r = Inr (res, r1)"
    by (cases "Router_call cl r") auto
  with Cons.prems(1) obtain rest where c2: "Router_calls cs r1 = Inr (rest, r')"
    and results: "results = res # rest"
    by (cases "Router_calls cs r1") auto
  from call_tables [OF c1 Cons.prems(2)]
  have l1: "tablesLinked r1"
    and t1: "\<And>k m. addressTable r1 k = Some m \<Longrightarrow>
        addressTable r k = Some m \<or>
        (\<exists>dev. res = Some dev \<and> k = Ipv4Address_toInt (dev_ip dev) \<and> m = dev_mac dev)"
    by blast+
  from Cons.IH [OF c2 l1]
  have l2: "tablesLinked r'"
    and t2: "\<And>k m. addressTable r' k = Some m \<Longrightarrow>
        addressTable r1 k = Some m \<or>
        (\<exists>dev. Some dev \<in> set rest \<and> k = Ipv4Address_toInt (dev_ip dev) \<and> m = dev_mac dev)"
    by blast+
  show ?case
  proof (intro conjI allI impI)
    show "tablesLinked r'" by (rule l2)
  next
    fix k m assume "addressTable r' k = Some m"
    from t2 [OF this] show "addressTable r k = Some m \<or>
        (\<exists>dev. Some dev \<in> set (results) \<and> k = Ipv4Address_toInt (dev_ip dev) \<and> m = dev_mac dev)"
    proof
      assume "addressTable r1 k = Some m"
      from t1 [OF this] show ?thesis unfolding results by auto
    next
      assume "\<exists>dev. Some dev \<in> set rest \<and> k = Ipv4Address_toInt (dev_ip dev) \<and> m = dev_mac dev"
      then show ?thesis unfolding results by auto
    qed
  qed
qed

lemma onProcessFrame_lookup:
  assumes "arp_srcMac frame \<noteq> router_mac router"
    "arp_destMac frame = router_mac router \<or> arp_destMac frame = MacAddress_BroadcastAddress"
    "arp_hardwareType frame = 1"
  shows "ArpImplementation_onProcessFrame router frame =
     (case addressTable router (Ipv4Address_toInt (arp_queriedIp frame)) of
        None \<Rightarrow> (True, [])
      | Some m \<Rightarrow>
          (case devices router (MacAddress_toString m) of
             None \<Rightarrow> (True, [])
           | Some dev \<Rightarrow> (True, [arpReply router frame (dev_mac dev)])))"
  using assms
  by (auto simp: ArpImplementation_onProcessFrame_def MacAddress_isRecipientOfTarget_def
      MacAddress_equals_iff Let_def Router_getDevice_ip_def arpReply_def split: option.splits)

lemma reached_lookup:
  assumes run: "Router_calls calls (Router_new mac (Ipv4Address a b c d) (Ipv4Address 255 255 0 0))
                  = Inr (results, router)"
  shows "addressTable router (Ipv4Address_toInt (Ipv4Address a b c d)) = Some mac"
    and "Some dev \<in> set results \<Longrightarrow>
           addressTable router (Ipv4Address_toInt (dev_ip dev)) = Some (dev_mac dev)"
    and "addressTable router k = Some m \<Longrightarrow>
           \<exists>dev'. devices router (MacAddress_toString m) = Some dev' \<and> dev_mac dev' = m"
    and "addressTable router (Ipv4Address_toInt ip) = Some m \<Longrightarrow>
           ip = Ipv4Address a b c d \<or> (\<exists>dev. Some dev \<in> set results \<and> dev_ip dev = ip)"
proof -
  let ?ip = "Ipv4Address a b c d"
  let ?r0 = "Router_new mac ?ip (Ipv4Address 255 255 0 0)"
  from calls_steps [OF Router_inv_new, of calls mac a b c d] run
  have inv: "Router_inv mac a b c d router" and len: "length results = length calls"
    and keep: "\<And>dev. recorded ?r0 dev \<Longrightarrow> recorded router dev"
    and res: "\<And>i dev. i < length calls \<Longrightarrow> results ! i = Some dev \<Longrightarrow> recorded router dev"
    by auto
  from calls_tables [OF run tablesLinked_new]
  have linked: "tablesLinked router"
    and tab: "\<And>k m. addressTable router k = Some m \<Longrightarrow>
        addressTable ?r0 k = Some m \<or>
        (\<exists>dev. Some dev \<in> set results \<and> k = Ipv4Address_toInt (dev_ip dev) \<and> m = dev_mac dev)"
    by blast+
  from keep [OF recorded_new]
  show "addressTable router (Ipv4Address_toInt ?ip) = Some mac"
    by (simp add: recorded_def Router_asDevice_def)
  show "addressTable router (Ipv4Address_toInt (dev_ip dev)) = Some (dev_mac dev)"
    if "Some dev \<in> set results"
  proof -
    from that obtain i where "i < length results" "results ! i = Some dev"
      by (auto simp: in_set_conv_nth)
    with res len have "recorded router dev" by simp
    then show ?thesis by (simp add: recorded_def)
  qed
  show "\<exists>dev'. devices router (MacAddress_toString m) = Some dev' \<and> dev_mac dev' = m"
    if "addressTable router k = Some m"
  proof -
    from linked that obtain dev' where d: "devices router (MacAddress_toString m) = Some dev'"
      unfolding tablesLinked_def by blast
    with inv have "MacAddress_toString m = MacAddress_toString (dev_mac dev')"
      unfolding Router_inv_def by blast
    then have "dev_mac dev' = m" using MacAddress_toString_inj by metis
    with d show ?thesis by blast
  qed
  show "ip = ?ip \<or> (\<exists>dev. Some dev \<in> set results \<and> dev_ip dev = ip)"
    if "addressTable router (Ipv4Address_toInt ip) = Some m"
  proof -
    from tab [OF that] show ?thesis
    proof
      assume "addressTable ?r0 (Ipv4Address_toInt ip) = Some m"
      then have "Ipv4Address_toInt ip = Ipv4Address_toInt ?ip"
        by (simp add: Router_new_def Router_priv_registerDevice_def Router_asDevice_def
            split: if_splits)
      then show ?thesis using Ipv4Address_toInt_inj by blast
    next
      assume "\<exists>dev. Some dev \<in> set results \<and> Ipv4Address_toInt ip = Ipv4Address_toInt (dev_ip dev) \<and> m = dev_mac dev"
      then show ?thesis using Ipv4Address_toInt_inj by metis
    qed
  qed
qed

text \<open>
  Claim C9. For every ARP frame offered to the responder: a frame whose source MAC address
  is the router's is consumed and nothing is sent; otherwise a frame whose destination is
  neither the router's MAC address nor the broadcast address is not consumed (and nothing is
  sent); otherwise, if the queried IP address belongs to a known device, exactly one reply is
  sent, which is the request with operation 2, source MAC = the router's, destination MAC =
  the request's source MAC and queried MAC = the device's MAC, and the frame is consumed;
  and if the queried IP address is unknown the frame is consumed and nothing is sent.
  Known and unknown are stated twice. On the tables of any router: the address table maps
  the queried address to a MAC address under whose string a device is stored, or it does not.
  On a router with the subnet mask 255.255.0.0 after any sequence of \<open>registerDevice\<close> and
  \<open>getOrRegisterDevice\<close> calls: the router's own address is answered with the router's MAC
  address, the address of a device that a call returned with that device's MAC address, and
  any other address is not answered.
  The type \<open>ArpData\<close> fixes \<open>hardwareType\<close> to \<open>0x1\<close> (the ARP decoder forwards no other
  frame), which is the premise of these cases.
\<close>

theorem ArpImplementation_onProcessFrame_cases:
  "(arp_srcMac frame = router_mac router \<longrightarrow>
      ArpImplementation_onProcessFrame router frame = (True, [])) \<and>
   (arp_srcMac frame \<noteq> router_mac router \<and> arp_destMac frame \<noteq> router_mac router \<and>
    arp_destMac frame \<noteq> MacAddress_BroadcastAddress \<longrightarrow>
      ArpImplementation_onProcessFrame router frame = (False, [])) \<and>
   (arp_srcMac frame \<noteq> router_mac router \<and>
    (arp_destMac frame = router_mac router \<or> arp_destMac frame = MacAddress_BroadcastAddress) \<and>
    arp_hardwareType frame = 1 \<longrightarrow>
      (\<forall>m dev. addressTable router (Ipv4Address_toInt (arp_queriedIp frame)) = Some m \<and>
          devices router (MacAddress_toString m) = Some dev \<longrightarrow>
         ArpImplementation_onProcessFrame router frame =
           (True, [arpReply router frame (dev_mac dev)])) \<and>
      (addressTable router (Ipv4Address_toInt (arp_queriedIp frame)) = None \<or>
       (\<exists>m. addressTable router (Ipv4Address_toInt (arp_queriedIp frame)) = Some m \<and>
            devices router (MacAddress_toString m) = None) \<longrightarrow>
         ArpImplementation_onProcessFrame router frame = (True, [])) \<and>
      (Router_calls calls (Router_new mac (Ipv4Address a b c d) (Ipv4Address 255 255 0 0))
         = Inr (results, router) \<longrightarrow>
         (arp_queriedIp frame = Ipv4Address a b c d \<longrightarrow>
            ArpImplementation_onProcessFrame router frame = (True, [arpReply router frame mac])) \<and>
         (\<forall>dev. Some dev \<in> set results \<and> dev_ip dev = arp_queriedIp frame \<longrightarrow>
            ArpImplementation_onProcessFrame router frame =
              (True, [arpReply router frame (dev_mac dev)])) \<and>
         (arp_queriedIp frame \<noteq> Ipv4Address a b c d \<and>
          (\<forall>dev. Some dev \<in> set results \<longrightarrow> dev_ip dev \<noteq> arp_queriedIp frame) \<longrightarrow>
            ArpImplementation_onProcessFrame router frame = (True, []))))"
proof (intro conjI impI)
  show "ArpImplementation_onProcessFrame router frame = (True, [])"
    if "arp_srcMac frame = router_mac router"
    using that by (simp add: ArpImplementation_onProcessFrame_def MacAddress_equals_iff Let_def)
  show "ArpImplementation_onProcessFrame router frame = (False, [])"
    if "arp_srcMac frame \<noteq> router_mac router \<and> arp_destMac frame \<noteq> router_mac router \<and>
        arp_destMac frame \<noteq> MacAddress_BroadcastAddress"
    using that by (auto simp: ArpImplementation_onProcessFrame_def MacAddress_equals_iff Let_def
        MacAddress_isRecipientOfTarget_def)
next
  assume pre: "arp_srcMac frame \<noteq> router_mac router \<and>
    (arp_destMac frame = router_mac router \<or> arp_destMac frame = MacAddress_BroadcastAddress) \<and>
    arp_hardwareType frame = 1"
  then have look: "ArpImplementation_onProcessFrame router frame =
     (case addressTable router (Ipv4Address_toInt (arp_queriedIp frame)) of
        None \<Rightarrow> (True, [])
      | Some m \<Rightarrow>
          (case devices router (MacAddress_toString m) of
             None \<Rightarrow> (True, [])
           | Some dev \<Rightarrow> (True, [arpReply router frame (dev_mac dev)])))"
    using onProcessFrame_lookup by blast
  show "\<forall>m dev. addressTable router (Ipv4Address_toInt (arp_queriedIp frame)) = Some m \<and>
          devices router (MacAddress_toString m) = Some dev \<longrightarrow>
         ArpImplementation_onProcessFrame router frame =
           (True, [arpReply router frame (dev_mac dev)])"
    using look by auto
  show "ArpImplementation_onProcessFrame router frame = (True, [])"
    if "addressTable router (Ipv4Address_toInt (arp_queriedIp frame)) = None \<or>
       (\<exists>m. addressTable router (Ipv4Address_toInt (arp_queriedIp frame)) = Some m \<and>
            devices router (MacAddress_toString m) = None)"
    using look that by auto
  assume run: "Router_calls calls (Router_new mac (Ipv4Address a b c d) (Ipv4Address 255 255 0 0))
         = Inr (results, router)"
  note rl = reached_lookup [OF run]
  have known: "ArpImplementation_onProcessFrame router frame = (True, [arpReply router frame m])"
    if "addressTable router (Ipv4Address_toInt (arp_queriedIp frame)) = Some m" for m
  proof -
    from rl(3) [OF that] obtain dev' where
      "devices router (MacAddress_toString m) = Some dev'" "dev_mac dev' = m" by blast
    with look that show ?thesis by simp
  qed
  show "ArpImplementation_onProcessFrame router frame = (True, [arpReply router frame mac])"
    if "arp_queriedIp frame = Ipv4Address a b c d"
    using known rl(1) that by simp
  show "\<forall>dev. Some dev \<in> set results \<and> dev_ip dev = arp_queriedIp frame \<longrightarrow>
            ArpImplementation_onProcessFrame router frame =
              (True, [arpReply router frame (dev_mac dev)])"
    using known rl(2) by metis
  show "ArpImplementation_onProcessFrame router frame = (True, [])"
    if "arp_queriedIp frame \<noteq> Ipv4Address a b c d \<and>
          (\<forall>dev. Some dev \<in> set results \<longrightarrow> dev_ip dev \<noteq> arp_queriedIp frame)"
  proof (cases "addressTable router (Ipv4Address_toInt (arp_queriedIp frame))")
    case None
    with look show ?thesis by simp
  next
    case (Some m)
    from rl(4) [OF this] that show ?thesis by blast
  qed
qed

lemma exampleRouter_run:
  "Router_calls [RegisterDevice (MacAddress 0x00 0x22 0x15 0x64 0x7b 0x90)]
     (Router_new (MacAddress 0x00 0x0c 0x13 0x37 0x42 0x69) (Ipv4Address 192 168 13 37)
        (Ipv4Address 255 255 0 0))
   = Inr ([Some \<lparr> dev_mac = MacAddress 0x00 0x22 0x15 0x64 0x7b 0x90,
                  dev_ip = Ipv4Address 192 168 0 1, dev_isConfirmed = False \<rparr>], exampleRouter)"
proof -
  let ?calls = "[RegisterDevice (MacAddress 0x00 0x22 0x15 0x64 0x7b 0x90)]"
  let ?r0 = "Router_new (MacAddress 0x00 0x0c 0x13 0x37 0x42 0x69) (Ipv4Address 192 168 13 37)
        (Ipv4Address 255 255 0 0)"
  have "map_sum id fst (Router_calls ?calls ?r0)
      = Inr [Some \<lparr> dev_mac = MacAddress 0x00 0x22 0x15 0x64 0x7b 0x90,
                  dev_ip = Ipv4Address 192 168 0 1, dev_isConfirmed = False \<rparr>]"
    by code_simp
  then obtain r where run: "Router_calls ?calls ?r0
      = Inr ([Some \<lparr> dev_mac = MacAddress 0x00 0x22 0x15 0x64 0x7b 0x90,
                  dev_ip = Ipv4Address 192 168 0 1, dev_isConfirmed = False \<rparr>], r)"
    by (cases "Router_calls ?calls ?r0") auto
  then have "exampleRouter = r" unfolding exampleRouter_def by simp
  with run show ?thesis by simp
qed

lemma exampleRouter_mac: "router_mac exampleRouter = MacAddress 0x00 0x0c 0x13 0x37 0x42 0x69"
  by code_simp

theorem ArpImplementation_onProcessFrame_witness:
  "ArpImplementation_onProcessFrame exampleRouter (exampleArpRequest (Ipv4Address 192 168 0 1))
     = (True, [(exampleArpRequest (Ipv4Address 192 168 0 1))
                 \<lparr> arp_operation := 2,
                   arp_srcMac := MacAddress 0x00 0x0c 0x13 0x37 0x42 0x69,
                   arp_destMac := MacAddress 0xaa 0xbb 0xcc 0xdd 0xee 0xff,
                   arp_queriedMac := Some (MacAddress 0x00 0x22 0x15 0x64 0x7b 0x90) \<rparr>]) \<and>
   ArpImplementation_onProcessFrame exampleRouter (exampleArpRequest (Ipv4Address 192 168 13 37))
     = (True, [(exampleArpRequest (Ipv4Address 192 168 13 37))
                 \<lparr> arp_operation := 2,
                   arp_srcMac := MacAddress 0x00 0x0c 0x13 0x37 0x42 0x69,
                   arp_destMac := MacAddress 0xaa 0xbb 0xcc 0xdd 0xee 0xff,
                   arp_queriedMac := Some (MacAddress 0x00 0x0c 0x13 0x37 0x42 0x69) \<rparr>]) \<and>
   ArpImplementation_onProcessFrame exampleRouter (exampleArpRequest (Ipv4Address 10 9 8 7))
     = (True, [])"
proof -
  let ?d1 = "\<lparr> dev_mac = MacAddress 0x00 0x22 0x15 0x64 0x7b 0x90,
                  dev_ip = Ipv4Address 192 168 0 1, dev_isConfirmed = False \<rparr>"
  have pre: "arp_srcMac (exampleArpRequest q) \<noteq> router_mac exampleRouter \<and>
    (arp_destMac (exampleArpRequest q) = router_mac exampleRouter \<or>
     arp_destMac (exampleArpRequest q) = MacAddress_BroadcastAddress) \<and>
    arp_hardwareType (exampleArpRequest q) = 1" for q
    by (simp add: exampleArpRequest_def exampleRouter_mac MacAddress_BroadcastAddress_def)
  have "ArpImplementation_onProcessFrame exampleRouter (exampleArpRequest (Ipv4Address 192 168 0 1))
      = (True, [arpReply exampleRouter (exampleArpRequest (Ipv4Address 192 168 0 1)) (dev_mac ?d1)])"
    using ArpImplementation_onProcessFrame_cases [of "exampleArpRequest (Ipv4Address 192 168 0 1)"
        exampleRouter "[RegisterDevice (MacAddress 0x00 0x22 0x15 0x64 0x7b 0x90)]"
        "MacAddress 0x00 0x0c 0x13 0x37 0x42 0x69" 192 168 13 37 "[Some ?d1]"]
      pre [of "Ipv4Address 192 168 0 1"] exampleRouter_run
    by (simp add: exampleArpRequest_def)
  moreover
  have "ArpImplementation_onProcessFrame exampleRouter (exampleArpRequest (Ipv4Address 192 168 13 37))
      = (True, [arpReply exampleRouter (exampleArpRequest (Ipv4Address 192 168 13 37))
                  (MacAddress 0x00 0x0c 0x13 0x37 0x42 0x69)])"
    using ArpImplementation_onProcessFrame_cases [of "exampleArpRequest (Ipv4Address 192 168 13 37)"
        exampleRouter "[RegisterDevice (MacAddress 0x00 0x22 0x15 0x64 0x7b 0x90)]"
        "MacAddress 0x00 0x0c 0x13 0x37 0x42 0x69" 192 168 13 37 "[Some ?d1]"]
      pre [of "Ipv4Address 192 168 13 37"] exampleRouter_run
    by (simp add: exampleArpRequest_def)
  moreover
  have "ArpImplementation_onProcessFrame exampleRouter (exampleArpRequest (Ipv4Address 10 9 8 7))
      = (True, [])"
    using ArpImplementation_onProcessFrame_cases [of "exampleArpRequest (Ipv4Address 10 9 8 7)"
        exampleRouter "[RegisterDevice (MacAddress 0x00 0x22 0x15 0x64 0x7b 0x90)]"
        "MacAddress 0x00 0x0c 0x13 0x37 0x42 0x69" 192 168 13 37 "[Some ?d1]"]
      pre [of "Ipv4Address 10 9 8 7"] exampleRouter_run
    by (simp add: exampleArpRequest_def)
  ultimately show ?thesis
    by (simp add: arpReply_def exampleRouter_mac exampleArpRequest_def)
qed

subsection \<open>The TCP socket\<close>

lemma process_addressed:
  assumes "addressedTo p s" "sock_state s \<noteq> INIT"
  shows "TcpSocket_process p s =
     (if flag_fin (tcp_flags p) then Returned (TcpSocket_close s)
      else TcpSocket_process_switch p (TcpSocket_process_acknowledge p s))"
  using assms unfolding TcpSocket_process_def addressedTo_def Ipv4Address_equals_iff
  by auto

lemma acknowledge_fields:
  "sock_state (TcpSocket_process_acknowledge p s) = sock_state s"
  "sock_events (TcpSocket_process_acknowledge p s) = sock_events s"
  "sock_seq (TcpSocket_process_acknowledge p s) = sock_seq s"
  "sock_ack (TcpSocket_process_acknowledge p s) = sock_ack s"
  "sock_srcIp (TcpSocket_process_acknowledge p s) = sock_srcIp s"
  "sock_destIp (TcpSocket_process_acknowledge p s) = sock_destIp s"
  "sock_srcPort (TcpSocket_process_acknowledge p s) = sock_srcPort s"
  "sock_destPort (TcpSocket_process_acknowledge p s) = sock_destPort s"
  "sock_writeOnceEstablished (TcpSocket_process_acknowledge p s) = sock_writeOnceEstablished s"
  "sock_receivedPacketsUnacknowledged (TcpSocket_process_acknowledge p s) = sock_receivedPacketsUnacknowledged s"
  by (simp_all add: TcpSocket_process_acknowledge_def)

text \<open>
  Claim C10. \<open>close()\<close> is not idempotent in its effects. Every call, also on a socket that
  is already CLOSED, leaves the state CLOSED and calls every registered \<open>onClose\<close> callback
  once more, in registration order: two calls in a row call each callback twice. An inbound
  packet with the FIN flag that is addressed to a CLOSED socket is such a call: \<open>process\<close>
  returns the socket as \<open>close()\<close> leaves it.
\<close>

theorem TcpSocket_close_repeats_callbacks:
  "sock_state (TcpSocket_close s) = CLOSED \<and>
   sock_onCloseCallbacks (TcpSocket_close s) = sock_onCloseCallbacks s \<and>
   sock_events (TcpSocket_close s) = sock_events s @ map CloseCallback (sock_onCloseCallbacks s) \<and>
   sock_events (TcpSocket_close (TcpSocket_close s)) =
     sock_events s @ map CloseCallback (sock_onCloseCallbacks s)
                   @ map CloseCallback (sock_onCloseCallbacks s) \<and>
   (sock_state s = CLOSED \<and> flag_fin (tcp_flags p) \<and> addressedTo p s \<longrightarrow>
      TcpSocket_process p s = Returned (TcpSocket_close s))"
  by (simp add: process_addressed) (simp add: TcpSocket_close_def TcpSocket_priv_onCloseCallback_def)

lemma sendPacket_fields:
  "sock_state (TcpSocket_priv_sendPacket i sq ak fl d s) = sock_state s"
  "sock_seq (TcpSocket_priv_sendPacket i sq ak fl d s) = sock_seq s + i"
  "sock_ack (TcpSocket_priv_sendPacket i sq ak fl d s) = sock_ack s"
  "sock_sentPacketsUnacknowledged (TcpSocket_priv_sendPacket i sq ak fl d s) =
     sock_sentPacketsUnacknowledged s @
       [\<lparr> tcp_srcIp = sock_srcIp s, tcp_destIp = sock_destIp s,
          tcp_srcPort = sock_srcPort s, tcp_destPort = sock_destPort s,
          tcp_seq = sq, tcp_ack = ak, tcp_flags = fl,
          tcp_windowSize = None, tcp_urgentPointer = None, tcp_options = None,
          tcp_data = d \<rparr>]"
  "sock_events (TcpSocket_priv_sendPacket i sq ak fl d s) =
     sock_events s @
       [OnSendPacket \<lparr> tcp_srcIp = sock_srcIp s, tcp_destIp = sock_destIp s,
          tcp_srcPort = sock_srcPort s, tcp_destPort = sock_destPort s,
          tcp_seq = sq, tcp_ack = ak, tcp_flags = fl,
          tcp_windowSize = None, tcp_urgentPointer = None, tcp_options = None,
          tcp_data = d \<rparr>]"
  "sock_writeOnceEstablished (TcpSocket_priv_sendPacket i sq ak fl d s) = sock_writeOnceEstablished s"
  "sock_onEstablishedCallbacks (TcpSocket_priv_sendPacket i sq ak fl d s) = sock_onEstablishedCallbacks s"
  "sock_srcIp (TcpSocket_priv_sendPacket i sq ak fl d s) = sock_srcIp s"
  "sock_destIp (TcpSocket_priv_sendPacket i sq ak fl d s) = sock_destIp s"
  "sock_srcPort (TcpSocket_priv_sendPacket i sq ak fl d s) = sock_srcPort s"
  "sock_destPort (TcpSocket_priv_sendPacket i sq ak fl d s) = sock_destPort s"
  by (simp_all add: TcpSocket_priv_sendPacket_def Let_def)

lemma drain_sent:
  "sock_sentPacketsUnacknowledged (fst (TcpSocket_process_drain s m)) = sock_sentPacketsUnacknowledged s"
proof (induction s m rule: TcpSocket_process_drain.induct)
  case (1 this mustAcknowledge)
  show ?case
  proof (cases "find (\<lambda>packet. tcp_seq packet \<le> sock_ack this) (sock_receivedPacketsUnacknowledged this)")
    case None
    then show ?thesis by (subst TcpSocket_process_drain.simps) simp
  next
    case (Some packet)
    define this1 where "this1 = this\<lparr> sock_receivedPacketsUnacknowledged :=
                                remove1 packet (sock_receivedPacketsUnacknowledged this) \<rparr>"
    define this2 where "this2 = this1\<lparr> sock_ack := sock_ack this1 + int (length (tcp_data packet)) \<rparr>"
    note ih = "1.IH" [OF Some this1_def]
    show ?thesis
    proof (cases "tcp_seq packet < sock_ack this1")
      case True
      with ih(1) Some show ?thesis
        by (subst TcpSocket_process_drain.simps) (simp add: this1_def Let_def)
    next
      case False
      show ?thesis
      proof (cases "length (tcp_data packet) > 0")
        case True
        with ih(2) [OF False this2_def] \<open>\<not> tcp_seq packet < sock_ack this1\<close> Some show ?thesis
          by (subst TcpSocket_process_drain.simps)
            (simp add: this1_def this2_def Let_def TcpSocket_priv_onDataCallback_def)
      next
        case F2: False
        with ih(3) [OF False this2_def] False Some show ?thesis
          by (subst TcpSocket_process_drain.simps) (simp add: this1_def this2_def Let_def)
      qed
    qed
  qed
qed

lemma switch_sent:
  "\<exists>new. sock_sentPacketsUnacknowledged (socketOf (TcpSocket_process_switch p s)) =
          sock_sentPacketsUnacknowledged s @ new \<and> length new \<le> 1"
proof (cases "sock_state s")
  case ESTABLISHED
  obtain s' m where d: "TcpSocket_process_drain
      (s\<lparr> sock_receivedPacketsUnacknowledged := sock_receivedPacketsUnacknowledged s @ [p] \<rparr>) False = (s', m)"
    by (cases "TcpSocket_process_drain
      (s\<lparr> sock_receivedPacketsUnacknowledged := sock_receivedPacketsUnacknowledged s @ [p] \<rparr>) False")
  from drain_sent [of "s\<lparr> sock_receivedPacketsUnacknowledged := sock_receivedPacketsUnacknowledged s @ [p] \<rparr>" False] d
  have "sock_sentPacketsUnacknowledged s' = sock_sentPacketsUnacknowledged s" by simp
  with ESTABLISHED d show ?thesis
    by (simp add: TcpSocket_process_switch_def sendPacket_fields Let_def)
qed (simp_all add: TcpSocket_process_switch_def sendPacket_fields Let_def)

text \<open>
  Claim C3, as amended. A socket that is not in INIT processes an inbound packet addressed to
  it that has the ACK flag and no FIN flag. Afterwards the unacknowledged list is the old
  list without the packets \<open>q\<close> with \<open>q.seq + q.data.length <= ack\<close>, followed by at most one
  packet sent while processing. So a sent packet is removed exactly when the incoming \<open>ack\<close>
  is greater than or equal to \<open>q.seq + q.data.length\<close>; an \<open>ack\<close> equal to that sum removes it.
  This holds whether \<open>process\<close> returns or throws.
\<close>

theorem TcpSocket_process_acknowledged_removed:
  assumes "sock_state s \<noteq> INIT" and "addressedTo p s"
    and "flag_ack (tcp_flags p)" and "\<not> flag_fin (tcp_flags p)"
  shows "\<exists>new. sock_sentPacketsUnacknowledged (socketOf (TcpSocket_process p s)) =
           filter (\<lambda>q. tcp_ack p < tcp_seq q + int (length (tcp_data q)))
             (sock_sentPacketsUnacknowledged s) @ new \<and> length new \<le> 1"
proof -
  have "sock_sentPacketsUnacknowledged (TcpSocket_process_acknowledge p s) =
      filter (\<lambda>q. tcp_ack p < tcp_seq q + int (length (tcp_data q))) (sock_sentPacketsUnacknowledged s)"
    using assms(3) by (simp add: TcpSocket_process_acknowledge_def)
  with switch_sent [of p "TcpSocket_process_acknowledge p s"] assms show ?thesis
    by (simp add: process_addressed)
qed

text \<open>
  Claim C5, as amended. A socket in LISTEN processes an inbound packet addressed to it that
  has no FIN flag. If the packet has the SYN flag, the socket moves to SYN_RECEIVED, sets
  \<open>_ack\<close> to the packet's \<open>seq + 1\<close>, sends one SYN+ACK carrying its current \<open>seq\<close> and that
  \<open>ack\<close>, and advances \<open>_seq\<close> by one. If the packet has no SYN flag, the socket stays in
  LISTEN and sends nothing: the code tests \<open>tcpPacket.flags.syn\<close>.
\<close>

theorem TcpSocket_process_listen:
  assumes "sock_state s = LISTEN" and "addressedTo p s" and "\<not> flag_fin (tcp_flags p)"
  shows "(flag_syn (tcp_flags p) \<longrightarrow>
           (\<exists>s'. TcpSocket_process p s = Returned s' \<and> sock_state s' = SYN_RECEIVED \<and>
              sock_ack s' = tcp_seq p + 1 \<and> sock_seq s' = sock_seq s + 1 \<and>
              sock_events s' = sock_events s @
                [OnSendPacket \<lparr> tcp_srcIp = sock_srcIp s, tcp_destIp = sock_destIp s,
                   tcp_srcPort = sock_srcPort s, tcp_destPort = sock_destPort s,
                   tcp_seq = sock_seq s, tcp_ack = tcp_seq p + 1,
                   tcp_flags = noFlags\<lparr> flag_syn := True, flag_ack := True \<rparr>,
                   tcp_windowSize = None, tcp_urgentPointer = None, tcp_options = None,
                   tcp_data = [] \<rparr>])) \<and>
         (\<not> flag_syn (tcp_flags p) \<longrightarrow>
           (\<exists>s'. TcpSocket_process p s = Returned s' \<and> sock_state s' = LISTEN \<and>
              sock_ack s' = sock_ack s \<and> sock_seq s' = sock_seq s \<and>
              sock_events s' = sock_events s))"
  using assms
  by (simp add: process_addressed TcpSocket_process_switch_def acknowledge_fields
      sendPacket_fields Let_def)

lemma exampleSocket_fields:
  "sock_state (exampleSocket sv st) = st"
  "sock_srcIp (exampleSocket sv st) = Ipv4Address 192 168 13 37"
  "sock_destIp (exampleSocket sv st) = Ipv4Address 192 168 0 1"
  "sock_srcPort (exampleSocket sv st) = 12400"
  "sock_destPort (exampleSocket sv st) = 5432"
  "sock_seq (exampleSocket sv st) = 305419800"
  "sock_ack (exampleSocket sv st) = 0"
  "sock_events (exampleSocket sv st) = []"
  "sock_isServer (exampleSocket sv st) = sv"
  "sock_onCloseCallbacks (exampleSocket sv st) = []"
  "sock_onEstablishedCallbacks (exampleSocket sv st) = []"
  "sock_sentPacketsUnacknowledged (exampleSocket sv st) = []"
  "sock_receivedPacketsUnacknowledged (exampleSocket sv st) = []"
  "sock_writeOnceEstablished (exampleSocket sv st) = []"
  by (simp_all add: exampleSocket_def TcpSocket_new_def js_and_def toInt32_def)

lemma examplePacket_addressedTo:
  "sock_srcIp s = Ipv4Address 192 168 13 37 \<Longrightarrow> sock_srcPort s = 12400 \<Longrightarrow>
   addressedTo (examplePacket fl sq ak d) s"
  by (simp add: addressedTo_def examplePacket_def)

theorem TcpSocket_close_repeats_callbacks_witness:
  "TcpSocket_process (examplePacket (noFlags\<lparr> flag_fin := True \<rparr>) 1000 0 [])
      (TcpSocket_close (TcpSocket_onClose 2 (TcpSocket_onClose 1 (exampleSocket False ESTABLISHED))))
     = Returned (TcpSocket_close (TcpSocket_close
         (TcpSocket_onClose 2 (TcpSocket_onClose 1 (exampleSocket False ESTABLISHED))))) \<and>
   sock_events (TcpSocket_close (TcpSocket_close
         (TcpSocket_onClose 2 (TcpSocket_onClose 1 (exampleSocket False ESTABLISHED)))))
     = [CloseCallback 1, CloseCallback 2, CloseCallback 1, CloseCallback 2]"
proof -
  let ?s = "TcpSocket_onClose 2 (TcpSocket_onClose 1 (exampleSocket False ESTABLISHED))"
  let ?p = "examplePacket (noFlags\<lparr> flag_fin := True \<rparr>) 1000 0 []"
  have a: "addressedTo ?p (TcpSocket_close ?s)"
    by (rule examplePacket_addressedTo)
      (simp_all add: TcpSocket_close_def TcpSocket_priv_onCloseCallback_def TcpSocket_onClose_def
        exampleSocket_fields)
  have f: "flag_fin (tcp_flags ?p)" by (simp add: examplePacket_def)
  have c: "sock_onCloseCallbacks ?s = [1, 2]" "sock_events ?s = []"
    by (simp_all add: TcpSocket_onClose_def exampleSocket_fields)
  from TcpSocket_close_repeats_callbacks [of "TcpSocket_close ?s" ?p]
       TcpSocket_close_repeats_callbacks [of ?s ?p] a f c
  show ?thesis by simp
qed

theorem TcpSocket_process_listen_counterexample:
  "\<not> (\<forall>p s. sock_isServer s \<and> sock_state s = LISTEN \<and> addressedTo p s \<longrightarrow>
        sock_state (socketOf (TcpSocket_process p s)) = SYN_RECEIVED)"
proof
  let ?s = "exampleSocket True LISTEN"
  let ?p = "examplePacket (noFlags\<lparr> flag_ack := True \<rparr>) 1000 0 []"
  assume "\<forall>p s. sock_isServer s \<and> sock_state s = LISTEN \<and> addressedTo p s \<longrightarrow>
        sock_state (socketOf (TcpSocket_process p s)) = SYN_RECEIVED"
  moreover have "addressedTo ?p ?s"
    by (rule examplePacket_addressedTo) (simp_all add: exampleSocket_fields)
  ultimately have "sock_state (socketOf (TcpSocket_process ?p ?s)) = SYN_RECEIVED"
    by (simp add: exampleSocket_fields)
  moreover have "sock_state (socketOf (TcpSocket_process ?p ?s)) = LISTEN"
    by (simp add: TcpSocket_process_def TcpSocket_process_switch_def TcpSocket_process_acknowledge_def
        Ipv4Address_equals_def exampleSocket_fields examplePacket_def noFlags_def)
  ultimately show False by simp
qed

theorem TcpSocket_process_listen_witness:
  "\<exists>s'. TcpSocket_process (examplePacket (noFlags\<lparr> flag_syn := True \<rparr>) 1000 0 [])
            (exampleSocket True LISTEN) = Returned s' \<and>
         sock_state s' = SYN_RECEIVED \<and> sock_ack s' = 1001 \<and> sock_seq s' = 305419801 \<and>
         sock_events s' =
           [OnSendPacket \<lparr> tcp_srcIp = Ipv4Address 192 168 13 37, tcp_destIp = Ipv4Address 192 168 0 1,
              tcp_srcPort = 12400, tcp_destPort = 5432, tcp_seq = 305419800, tcp_ack = 1001,
              tcp_flags = noFlags\<lparr> flag_syn := True, flag_ack := True \<rparr>,
              tcp_windowSize = None, tcp_urgentPointer = None, tcp_options = None,
              tcp_data = [] \<rparr>]"
proof -
  let ?s = "exampleSocket True LISTEN"
  let ?p = "examplePacket (noFlags\<lparr> flag_syn := True \<rparr>) 1000 0 []"
  have a: "addressedTo ?p ?s"
    by (rule examplePacket_addressedTo) (simp_all add: exampleSocket_fields)
  have f: "\<not> flag_fin (tcp_flags ?p)" "flag_syn (tcp_flags ?p)" "tcp_seq ?p = 1000"
    by (simp_all add: examplePacket_def noFlags_def)
  have st: "sock_state ?s = LISTEN" by (simp add: exampleSocket_fields)
  from TcpSocket_process_listen [OF st a f(1)] f(2,3) show ?thesis
    by (simp add: exampleSocket_fields)
qed

lemma example_write:
  "TcpSocket_write [1, 2, 3, 4, 5] (exampleSocket False ESTABLISHED) =
     Returned ((exampleSocket False ESTABLISHED)
       \<lparr> sock_seq := 305419805, sock_sentPacketsUnacknowledged := [exampleSegment],
         sock_events := [OnSendPacket exampleSegment] \<rparr>)"
  by (simp add: TcpSocket_write_def TcpSocket_write_loop.simps TcpSocket_priv_writeSinglePacket_def
      TcpSocket_priv_sendPacket_def exampleSocket_fields exampleSegment_def Let_def)

lemma exampleSent_write:
  "TcpSocket_write [1, 2, 3, 4, 5] (exampleSocket False ESTABLISHED) = Returned exampleSent"
  by (simp add: example_write exampleSent_def)

lemma exampleSent_process_ack:
  "sock_sentPacketsUnacknowledged
     (socketOf (TcpSocket_process (examplePacket (noFlags\<lparr> flag_ack := True \<rparr>) 0 305419805 [])
        exampleSent)) = []"
  by (simp add: TcpSocket_process_def TcpSocket_process_switch_def TcpSocket_process_acknowledge_def
      TcpSocket_process_drain.simps Ipv4Address_equals_def exampleSent_def exampleSocket_fields
      examplePacket_def exampleSegment_def noFlags_def Let_def)

theorem TcpSocket_process_acknowledged_removed_counterexample:
  "\<not> (\<forall>p s q. sock_state s \<noteq> INIT \<and> addressedTo p s \<and> flag_ack (tcp_flags p) \<and>
         \<not> flag_fin (tcp_flags p) \<and> q \<in> set (sock_sentPacketsUnacknowledged s) \<and>
         tcp_ack p = tcp_seq q + int (length (tcp_data q)) \<longrightarrow>
         q \<in> set (sock_sentPacketsUnacknowledged (socketOf (TcpSocket_process p s))))"
proof
  let ?p = "examplePacket (noFlags\<lparr> flag_ack := True \<rparr>) 0 305419805 []"
  assume "\<forall>p s q. sock_state s \<noteq> INIT \<and> addressedTo p s \<and> flag_ack (tcp_flags p) \<and>
         \<not> flag_fin (tcp_flags p) \<and> q \<in> set (sock_sentPacketsUnacknowledged s) \<and>
         tcp_ack p = tcp_seq q + int (length (tcp_data q)) \<longrightarrow>
         q \<in> set (sock_sentPacketsUnacknowledged (socketOf (TcpSocket_process p s)))"
  moreover have "addressedTo ?p exampleSent"
    by (rule examplePacket_addressedTo) (simp_all add: exampleSent_def exampleSocket_fields)
  moreover have "sock_state exampleSent \<noteq> INIT" "flag_ack (tcp_flags ?p)" "\<not> flag_fin (tcp_flags ?p)"
    "exampleSegment \<in> set (sock_sentPacketsUnacknowledged exampleSent)"
    "tcp_ack ?p = tcp_seq exampleSegment + int (length (tcp_data exampleSegment))"
    by (simp_all add: exampleSent_def exampleSocket_fields examplePacket_def exampleSegment_def noFlags_def)
  ultimately have "exampleSegment \<in> set (sock_sentPacketsUnacknowledged (socketOf (TcpSocket_process ?p exampleSent)))"
    by blast
  then show False by (simp add: exampleSent_process_ack)
qed

theorem TcpSocket_process_acknowledged_removed_witness:
  "(\<exists>new. sock_sentPacketsUnacknowledged
       (socketOf (TcpSocket_process (examplePacket (noFlags\<lparr> flag_ack := True \<rparr>) 0 305419804 [])
          exampleSent)) = [exampleSegment] @ new \<and> length new \<le> 1) \<and>
   (\<exists>new. sock_sentPacketsUnacknowledged
       (socketOf (TcpSocket_process (examplePacket (noFlags\<lparr> flag_ack := True \<rparr>) 0 305419805 [])
          exampleSent)) = [] @ new \<and> length new \<le> 1)"
proof -
  have a: "addressedTo (examplePacket fl sq ak d) exampleSent" for fl sq ak d
    by (rule examplePacket_addressedTo) (simp_all add: exampleSent_def exampleSocket_fields)
  have st: "sock_state exampleSent \<noteq> INIT" by (simp add: exampleSent_def exampleSocket_fields)
  have f: "flag_ack (tcp_flags (examplePacket (noFlags\<lparr> flag_ack := True \<rparr>) sq ak d))"
    "\<not> flag_fin (tcp_flags (examplePacket (noFlags\<lparr> flag_ack := True \<rparr>) sq ak d))" for sq ak d
    by (simp_all add: examplePacket_def noFlags_def)
  have l: "sock_sentPacketsUnacknowledged exampleSent = [exampleSegment]"
    by (simp add: exampleSent_def)
  from TcpSocket_process_acknowledged_removed [OF st a f, of 0 305419804 "[]"]
       TcpSocket_process_acknowledged_removed [OF st a f, of 0 305419805 "[]"]
  show ?thesis
    by (simp add: l) (simp add: examplePacket_def exampleSegment_def)
qed

lemma upt_Suc_shift: "[0..<Suc m] = 0 # map Suc [0..<m]"
  by (simp add: upt_rec [of 0 "Suc m"] map_Suc_upt del: upt_Suc)

lemma segments_count_step:
  assumes "i < length data"
  shows "(length data - i + 1199) div 1200 = Suc ((length data - (i + 1200) + 1199) div 1200)"
proof -
  define x where "x = length data - i"
  have x: "0 < x" "length data - (i + 1200) = x - 1200" using assms by (simp_all add: x_def)
  have "(x + 1199) div 1200 = Suc ((x - 1200 + 1199) div 1200)"
  proof (cases "x \<le> 1200")
    case True
    then have "(x + 1199) div 1200 = 1" using x(1) by (intro div_nat_eqI) simp_all
    with True show ?thesis by simp
  next
    case False
    then have "x + 1199 = (x - 1200 + 1199) + 1200" by simp
    then have "(x + 1199) div 1200 = (x - 1200 + 1199) div 1200 + 1"
      by (metis div_add_self2 zero_neq_numeral)
    then show ?thesis by simp
  qed
  then show ?thesis unfolding x(2) x_def .
qed

lemma dataSegment_segmentFrom: "dataSegment s data k = segmentFrom s data 0 k"
  by (simp add: dataSegment_def segmentFrom_def)

lemma write_loop_segments:
  "sock_state t = ESTABLISHED \<Longrightarrow> n = (length data - i + 1199) div 1200 \<Longrightarrow>
   TcpSocket_write_loop i data t =
     Returned (t\<lparr> sock_seq := sock_seq t + int (length data - i),
                  sock_sentPacketsUnacknowledged :=
                    sock_sentPacketsUnacknowledged t @ map (segmentFrom t data i) [0..<n],
                  sock_events := sock_events t @ map (\<lambda>k. OnSendPacket (segmentFrom t data i k)) [0..<n] \<rparr>)"
proof (induction n arbitrary: t i)
  case 0
  then have "length data \<le> i" by simp
  then show ?case
    by (subst TcpSocket_write_loop.simps) simp
next
  case (Suc m)
  have lt: "i < length data"
  proof (rule ccontr)
    assume "\<not> i < length data"
    then have "(length data - i + 1199) div 1200 = 0" by simp
    with Suc.prems(2) show False by simp
  qed
  define c where "c = take 1200 (drop i data)"
  define t1 where "t1 = TcpSocket_priv_sendPacket (int (length c)) (sock_seq t) (sock_ack t)
                       (noFlags\<lparr> flag_ack := True \<rparr>) c t"
  have st1: "sock_state t1 = ESTABLISHED" using Suc.prems(1) by (simp add: t1_def sendPacket_fields)
  have m: "m = (length data - (i + 1200) + 1199) div 1200"
    using Suc.prems(2) segments_count_step [OF lt] by simp
  have step: "TcpSocket_write_loop i data t = TcpSocket_write_loop (i + 1200) data t1"
    using lt Suc.prems(1)
    by (subst TcpSocket_write_loop.simps)
      (simp add: TcpSocket_priv_writeSinglePacket_def t1_def c_def)
  have lenc: "length c = min 1200 (length data - i)" by (simp add: c_def)
  have seg0: "segmentFrom t data i 0 = \<lparr> tcp_srcIp = sock_srcIp t, tcp_destIp = sock_destIp t,
          tcp_srcPort = sock_srcPort t, tcp_destPort = sock_destPort t,
          tcp_seq = sock_seq t, tcp_ack = sock_ack t, tcp_flags = noFlags\<lparr> flag_ack := True \<rparr>,
          tcp_windowSize = None, tcp_urgentPointer = None, tcp_options = None,
          tcp_data = c \<rparr>"
    by (simp add: segmentFrom_def c_def)
  have rest: "map (segmentFrom t1 data (i + 1200)) [0..<m] = map (segmentFrom t data i \<circ> Suc) [0..<m]"
  proof (cases "m = 0")
    case True
    then show ?thesis by simp
  next
    case False
    then have "1200 \<le> length data - (i + 1200) + 1199" using m by (simp add: div_greater_zero_iff)
    then have "length c = 1200" using lenc by simp
    then have "sock_seq t1 = sock_seq t + 1200" by (simp add: t1_def sendPacket_fields)
    then have "segmentFrom t1 data (i + 1200) k = segmentFrom t data i (Suc k)" for k
      by (simp add: segmentFrom_def t1_def sendPacket_fields algebra_simps)
    then show ?thesis by simp
  qed
  have seqf: "sock_seq t1 + int (length data - (i + 1200)) = sock_seq t + int (length data - i)"
    using lt lenc by (simp add: t1_def sendPacket_fields min_def)
  have "TcpSocket_write_loop (i + 1200) data t1 =
     Returned (t1\<lparr> sock_seq := sock_seq t1 + int (length data - (i + 1200)),
                  sock_sentPacketsUnacknowledged :=
                    sock_sentPacketsUnacknowledged t1 @ map (segmentFrom t1 data (i + 1200)) [0..<m],
                  sock_events := sock_events t1 @
                    map (\<lambda>k. OnSendPacket (segmentFrom t1 data (i + 1200) k)) [0..<m] \<rparr>)"
    by (rule Suc.IH [OF st1 m])
  also have "\<dots> = Returned (t\<lparr> sock_seq := sock_seq t + int (length data - i),
                  sock_sentPacketsUnacknowledged :=
                    sock_sentPacketsUnacknowledged t @ map (segmentFrom t data i) [0..<Suc m],
                  sock_events := sock_events t @
                    map (\<lambda>k. OnSendPacket (segmentFrom t data i k)) [0..<Suc m] \<rparr>)"
  proof -
    have ev: "map (\<lambda>k. OnSendPacket (segmentFrom t1 data (i + 1200) k)) [0..<m]
            = map OnSendPacket (map (segmentFrom t1 data (i + 1200)) [0..<m])"
      by simp
    have ev': "map (\<lambda>k. OnSendPacket (segmentFrom t data i k)) [0..<Suc m]
            = map OnSendPacket (map (segmentFrom t data i) [0..<Suc m])"
      by (simp del: upt_Suc)
    have full: "map (segmentFrom t data i) [0..<Suc m]
        = segmentFrom t data i 0 # map (segmentFrom t data i \<circ> Suc) [0..<m]"
      by (simp only: upt_Suc_shift list.map map_map)
    show ?thesis
      unfolding ev ev' full rest seqf
      by (simp add: t1_def TcpSocket_priv_sendPacket_def seg0 Let_def)
  qed
  finally show ?case using step by simp
qed

lemma concat_slices:
  "concat (map (\<lambda>k. take c (drop (c * k) xs)) [0..<n]) = take (c * n) xs"
proof (induction n)
  case 0
  show ?case by simp
next
  case (Suc n)
  have "take (c * n + c) xs = take (c * n) xs @ take c (drop (c * n) xs)"
    by (rule take_add)
  with Suc show ?case by (simp add: add.commute)
qed

lemma segments_cover: "length xs \<le> 1200 * ((length xs + 1199) div 1200)"
proof -
  have "(length xs + 1199) mod 1200 \<le> 1199"
    using mod_less_divisor [of 1200 "length xs + 1199"] by simp
  moreover have "1200 * ((length xs + 1199) div 1200) + (length xs + 1199) mod 1200 = length xs + 1199"
    by simp
  ultimately show ?thesis by linarith
qed

lemma dataSegments_concat:
  "concat (map (\<lambda>k. tcp_data (dataSegment s data k)) [0..<(length data + 1199) div 1200]) = data"
proof -
  have "concat (map (\<lambda>k. tcp_data (dataSegment s data k)) [0..<(length data + 1199) div 1200])
      = take (1200 * ((length data + 1199) div 1200)) data"
    using concat_slices [of 1200 data] by (simp add: dataSegment_def)
  then show ?thesis using segments_cover [of data] by simp
qed

text \<open>
  Claim C4. \<open>write(data)\<close> on an ESTABLISHED socket returns after sending the segments
  \<open>dataSegment s data k\<close> for \<open>k = 0, 1, ...\<close> below the number of 1200-byte slices of
  \<open>data\<close>, in this order and nothing else. Their payloads are at most 1200 bytes and
  concatenate to \<open>data\<close>; each has the ACK flag, the socket's \<open>ack\<close>, and as \<open>seq\<close> the
  socket's \<open>seq\<close> advanced by the payload lengths of the segments before it; the socket's
  \<open>seq\<close> ends advanced by the length of \<open>data\<close>. For 2500 bytes the payload lengths are 1200,
  1200 and 100 and the sequence numbers are 1200 apart.
\<close>

theorem TcpSocket_write_segments:
  assumes "sock_state s = ESTABLISHED"
  shows "\<exists>s' segs.
     TcpSocket_write data s = Returned s' \<and>
     segs = map (dataSegment s data) [0..<(length data + 1199) div 1200] \<and>
     sock_events s' = sock_events s @ map OnSendPacket segs \<and>
     sock_sentPacketsUnacknowledged s' = sock_sentPacketsUnacknowledged s @ segs \<and>
     sock_seq s' = sock_seq s + int (length data) \<and>
     sock_ack s' = sock_ack s \<and> sock_state s' = ESTABLISHED \<and>
     concat (map tcp_data segs) = data \<and>
     (\<forall>k < length segs.
        length (tcp_data (segs ! k)) \<le> 1200 \<and>
        flag_ack (tcp_flags (segs ! k)) \<and>
        tcp_ack (segs ! k) = sock_ack s \<and>
        tcp_seq (segs ! k) = sock_seq s + int (length (concat (map tcp_data (take k segs))))) \<and>
     (length data = 2500 \<longrightarrow>
        map (\<lambda>p. length (tcp_data p)) segs = [1200, 1200, 100] \<and>
        map tcp_seq segs = [sock_seq s, sock_seq s + 1200, sock_seq s + 2400])"
proof -
  define n where "n = (length data + 1199) div 1200"
  define segs where "segs = map (dataSegment s data) [0..<n]"
  define s' where "s' = s\<lparr> sock_seq := sock_seq s + int (length data),
                  sock_sentPacketsUnacknowledged := sock_sentPacketsUnacknowledged s @ segs,
                  sock_events := sock_events s @ map OnSendPacket segs \<rparr>"
  have sf: "segmentFrom s data 0 = dataSegment s data"
    by (rule ext) (simp add: dataSegment_segmentFrom)
  have w: "TcpSocket_write data s = Returned s'"
    using assms write_loop_segments [of s n data 0]
    by (simp add: TcpSocket_write_def n_def s'_def segs_def sf comp_def)
  have len: "length segs = n" by (simp add: segs_def)
  have nth: "segs ! k = dataSegment s data k" if "k < n" for k
    using that by (simp add: segs_def)
  have cc: "concat (map tcp_data segs) = data"
    using dataSegments_concat [of s data] by (simp add: segs_def n_def comp_def)
  have pre: "length (concat (map tcp_data (take k segs))) = 1200 * k" if "k < n" for k
  proof -
    have "map tcp_data (take k segs) = map (\<lambda>j. take 1200 (drop (1200 * j) data)) [0..<k]"
      using that by (simp add: segs_def take_map dataSegment_def comp_def)
    then have "concat (map tcp_data (take k segs)) = take (1200 * k) data"
      by (simp add: concat_slices)
    moreover have "1200 * k \<le> length data"
    proof -
      from that have "Suc k \<le> (length data + 1199) div 1200" by (simp add: n_def)
      then have "1200 * Suc k \<le> length data + 1199"
        by (simp add: less_eq_div_iff_mult_less_eq)
      then show ?thesis by simp
    qed
    ultimately show ?thesis by simp
  qed
  have each: "length (tcp_data (segs ! k)) \<le> 1200 \<and> flag_ack (tcp_flags (segs ! k)) \<and>
        tcp_ack (segs ! k) = sock_ack s \<and>
        tcp_seq (segs ! k) = sock_seq s + int (length (concat (map tcp_data (take k segs))))"
    if "k < length segs" for k
    using that pre [of k] by (simp add: len nth) (simp add: dataSegment_def)
  have ex: "map (\<lambda>p. length (tcp_data p)) segs = [1200, 1200, 100] \<and>
        map tcp_seq segs = [sock_seq s, sock_seq s + 1200, sock_seq s + 2400]"
    if "length data = 2500"
  proof -
    have "n = 3" by (simp add: n_def that)
    then have "[0..<n] = [0, 1, 2]" by (simp add: upt_rec)
    then show ?thesis by (simp add: segs_def dataSegment_def that)
  qed
  show ?thesis
  proof (intro exI [of _ s'] exI [of _ segs] conjI allI impI)
    show "TcpSocket_write data s = Returned s'" by (rule w)
    show "segs = map (dataSegment s data) [0..<(length data + 1199) div 1200]"
      by (simp add: segs_def n_def)
    show "sock_events s' = sock_events s @ map OnSendPacket segs" by (simp add: s'_def)
    show "sock_sentPacketsUnacknowledged s' = sock_sentPacketsUnacknowledged s @ segs"
      by (simp add: s'_def)
    show "sock_seq s' = sock_seq s + int (length data)" by (simp add: s'_def)
    show "sock_ack s' = sock_ack s" by (simp add: s'_def)
    show "sock_state s' = ESTABLISHED" using assms by (simp add: s'_def)
    show "concat (map tcp_data segs) = data" by (rule cc)
    show "length (tcp_data (segs ! k)) \<le> 1200" if "k < length segs" for k using each that by blast
    show "flag_ack (tcp_flags (segs ! k))" if "k < length segs" for k using each that by blast
    show "tcp_ack (segs ! k) = sock_ack s" if "k < length segs" for k using each that by blast
    show "tcp_seq (segs ! k) = sock_seq s + int (length (concat (map tcp_data (take k segs))))"
      if "k < length segs" for k using each that by blast
    show "map (\<lambda>p. length (tcp_data p)) segs = [1200, 1200, 100]" if "length data = 2500"
      using ex that by blast
    show "map tcp_seq segs = [sock_seq s, sock_seq s + 1200, sock_seq s + 2400]"
      if "length data = 2500" using ex that by blast
  qed
qed

theorem TcpSocket_write_segments_witness:
  "\<exists>s' segs.
     TcpSocket_write (replicate 2500 0x41) (exampleSocket False ESTABLISHED) = Returned s' \<and>
     sock_events s' = map OnSendPacket segs \<and>
     map (\<lambda>p. length (tcp_data p)) segs = [1200, 1200, 100] \<and>
     map tcp_seq segs = [305419800, 305421000, 305422200] \<and>
     sock_seq s' = 305422300"
proof -
  let ?s = "exampleSocket False ESTABLISHED"
  let ?d = "replicate 2500 (0x41 :: byte)"
  have st: "sock_state ?s = ESTABLISHED"
    by (simp add: exampleSocket_fields)
  have len: "length ?d = 2500" by simp
  from TcpSocket_write_segments [OF st, of ?d]
  obtain s' segs where w: "TcpSocket_write ?d ?s = Returned s'"
    and rest: "segs = map (dataSegment ?s ?d) [0..<(length ?d + 1199) div 1200] \<and>
     sock_events s' = sock_events ?s @ map OnSendPacket segs \<and>
     sock_sentPacketsUnacknowledged s' = sock_sentPacketsUnacknowledged ?s @ segs \<and>
     sock_seq s' = sock_seq ?s + int (length ?d) \<and>
     sock_ack s' = sock_ack ?s \<and> sock_state s' = ESTABLISHED \<and>
     concat (map tcp_data segs) = ?d \<and>
     (\<forall>k < length segs.
        length (tcp_data (segs ! k)) \<le> 1200 \<and>
        flag_ack (tcp_flags (segs ! k)) \<and>
        tcp_ack (segs ! k) = sock_ack ?s \<and>
        tcp_seq (segs ! k) = sock_seq ?s + int (length (concat (map tcp_data (take k segs))))) \<and>
     (length ?d = 2500 \<longrightarrow>
        map (\<lambda>p. length (tcp_data p)) segs = [1200, 1200, 100] \<and>
        map tcp_seq segs = [sock_seq ?s, sock_seq ?s + 1200, sock_seq ?s + 2400])"
    by (elim exE conjE) (rule that, assumption, intro conjI, assumption+)
  from rest have ev: "sock_events s' = sock_events ?s @ map OnSendPacket segs"
    by (elim conjE)
  from rest have sq: "sock_seq s' = sock_seq ?s + int (length ?d)"
    by (elim conjE)
  from rest have ex: "length ?d = 2500 \<longrightarrow>
        map (\<lambda>p. length (tcp_data p)) segs = [1200, 1200, 100] \<and>
        map tcp_seq segs = [sock_seq ?s, sock_seq ?s + 1200, sock_seq ?s + 2400]"
    by (elim conjE)
  from w ev sq ex len show ?thesis
    by (intro exI [of _ s'] exI [of _ segs]) (simp add: exampleSocket_fields)
qed

lemma write_established:
  assumes "sock_state t = ESTABLISHED"
  shows "\<exists>t' segs. TcpSocket_write data t = Returned t' \<and>
     sock_events t' = sock_events t @ map OnSendPacket segs \<and>
     concat (map tcp_data segs) = data \<and>
     sock_state t' = ESTABLISHED \<and>
     sock_onEstablishedCallbacks t' = sock_onEstablishedCallbacks t \<and>
     sock_writeOnceEstablished t' = sock_writeOnceEstablished t"
proof -
  define n where "n = (length data + 1199) div 1200"
  let ?segs = "map (segmentFrom t data 0) [0..<n]"
  have c: "concat (map tcp_data ?segs) = data"
    using dataSegments_concat [of t data]
    by (simp add: n_def comp_def dataSegment_segmentFrom)
  have e: "map (\<lambda>k. OnSendPacket (segmentFrom t data 0 k)) [0..<n] = map OnSendPacket ?segs"
    by simp
  show ?thesis
    using assms write_loop_segments [of t n data 0] c
    unfolding TcpSocket_write_def e
    by (intro exI [of _ "t\<lparr> sock_seq := sock_seq t + int (length data),
                  sock_sentPacketsUnacknowledged := sock_sentPacketsUnacknowledged t @ ?segs,
                  sock_events := sock_events t @ map OnSendPacket ?segs \<rparr>"] exI [of _ ?segs])
      (simp add: n_def)
qed

lemma writeAll_established:
  "sock_state t = ESTABLISHED \<Longrightarrow>
   \<exists>t' segs. TcpSocket_writeAll ds t = Returned t' \<and>
     sock_events t' = sock_events t @ map OnSendPacket segs \<and>
     concat (map tcp_data segs) = concat ds \<and>
     sock_state t' = ESTABLISHED \<and>
     sock_onEstablishedCallbacks t' = sock_onEstablishedCallbacks t \<and>
     sock_writeOnceEstablished t' = sock_writeOnceEstablished t"
proof (induction ds arbitrary: t)
  case Nil
  show ?case by (intro exI [of _ t] exI [of _ "[]"]) (simp add: Nil)
next
  case (Cons d ds)
  from write_established [OF Cons.prems, of d]
  obtain t1 segs1 where w: "TcpSocket_write d t = Returned t1"
    and e1: "sock_events t1 = sock_events t @ map OnSendPacket segs1"
    and c1: "concat (map tcp_data segs1) = d"
    and s1: "sock_state t1 = ESTABLISHED"
    and k1: "sock_onEstablishedCallbacks t1 = sock_onEstablishedCallbacks t"
      "sock_writeOnceEstablished t1 = sock_writeOnceEstablished t"
    by blast
  from Cons.IH [OF s1]
  obtain t2 segs2 where w2: "TcpSocket_writeAll ds t1 = Returned t2"
    and e2: "sock_events t2 = sock_events t1 @ map OnSendPacket segs2"
    and c2: "concat (map tcp_data segs2) = concat ds"
    and s2: "sock_state t2 = ESTABLISHED"
    and k2: "sock_onEstablishedCallbacks t2 = sock_onEstablishedCallbacks t1"
      "sock_writeOnceEstablished t2 = sock_writeOnceEstablished t1"
    by blast
  show ?case
    by (intro exI [of _ t2] exI [of _ "segs1 @ segs2"])
      (simp add: w w2 e1 e2 c1 c2 s2 k1 k2)
qed

lemma writeAll_buffered:
  "sock_state t \<noteq> ESTABLISHED \<Longrightarrow>
   TcpSocket_writeAll ds t =
     Returned (t\<lparr> sock_writeOnceEstablished := sock_writeOnceEstablished t @ ds \<rparr>)"
proof (induction ds arbitrary: t)
  case Nil
  show ?case by simp
next
  case (Cons d ds)
  let ?t1 = "t\<lparr> sock_writeOnceEstablished := sock_writeOnceEstablished t @ [d] \<rparr>"
  have w: "TcpSocket_write d t = Returned ?t1"
    using Cons.prems by (simp add: TcpSocket_write_def)
  have "sock_state ?t1 \<noteq> ESTABLISHED" using Cons.prems by simp
  from Cons.IH [OF this] w show ?case by simp
qed

lemma process_enters_established:
  assumes "sock_state s \<noteq> ESTABLISHED"
    and "sock_state (socketOf (TcpSocket_process p s)) = ESTABLISHED"
  shows "\<exists>s1 acks. TcpSocket_process p s = Returned s1 \<and>
     sock_events s1 = sock_events s @ map OnSendPacket acks @ [SetTimeout_onEstablishedCallback] \<and>
     (\<forall>q\<in>set acks. tcp_data q = []) \<and>
     sock_writeOnceEstablished s1 = sock_writeOnceEstablished s \<and>
     sock_onEstablishedCallbacks s1 = sock_onEstablishedCallbacks s"
proof (cases "sock_state s")
  case INIT
  with assms show ?thesis by (simp add: TcpSocket_process_def)
next
  case LISTEN
  with assms show ?thesis
    by (simp add: TcpSocket_process_def TcpSocket_process_switch_def
        TcpSocket_process_acknowledge_def TcpSocket_close_def TcpSocket_priv_onCloseCallback_def
        TcpSocket_priv_sendPacket_def Let_def split: if_splits)
next
  case SYN_SENT
  let ?ack = "\<lparr> tcp_srcIp = sock_srcIp s, tcp_destIp = sock_destIp s,
                tcp_srcPort = sock_srcPort s, tcp_destPort = sock_destPort s,
                tcp_seq = sock_seq s, tcp_ack = tcp_seq p + 1,
                tcp_flags = noFlags\<lparr> flag_ack := True \<rparr>,
                tcp_windowSize = None, tcp_urgentPointer = None, tcp_options = None,
                tcp_data = [] \<rparr>"
  from SYN_SENT assms show ?thesis
    by (intro exI [of _ "socketOf (TcpSocket_process p s)"] exI [of _ "[?ack]"])
      (simp add: TcpSocket_process_def TcpSocket_process_switch_def
        TcpSocket_process_acknowledge_def TcpSocket_close_def TcpSocket_priv_onCloseCallback_def
        TcpSocket_priv_sendPacket_def Let_def split: if_splits)
next
  case SYN_RECEIVED
  with assms show ?thesis
    by (intro exI [of _ "socketOf (TcpSocket_process p s)"] exI [of _ "[]"])
      (simp add: TcpSocket_process_def TcpSocket_process_switch_def
        TcpSocket_process_acknowledge_def TcpSocket_close_def TcpSocket_priv_onCloseCallback_def
        TcpSocket_priv_sendPacket_def Let_def split: if_splits)
next
  case ESTABLISHED
  with assms show ?thesis by simp
next
  case CLOSED
  with assms show ?thesis
    by (simp add: TcpSocket_process_def TcpSocket_process_switch_def
        TcpSocket_process_acknowledge_def TcpSocket_close_def TcpSocket_priv_onCloseCallback_def
        TcpSocket_priv_sendPacket_def Let_def split: if_splits)
qed

lemma onEstablishedCallback_established:
  assumes "sock_state s = ESTABLISHED"
  shows "\<exists>s' segs.
     TcpSocket_priv_onEstablishedCallback s = Returned s' \<and>
     sock_events s' = sock_events s @ map OnSendPacket segs @
                        map EstablishedCallback (sock_onEstablishedCallbacks s) \<and>
     sock_state s' = sock_state s \<and>
     concat (map tcp_data segs) = concat (sock_writeOnceEstablished s) \<and>
     sock_writeOnceEstablished s' = []"
proof -
  let ?t = "s\<lparr> sock_writeOnceEstablished := [] \<rparr>"
  have "sock_state ?t = ESTABLISHED" using assms by simp
  from writeAll_established [OF this, of "sock_writeOnceEstablished s"]
  obtain t' segs where w: "TcpSocket_writeAll (sock_writeOnceEstablished s) ?t = Returned t'"
    and e: "sock_events t' = sock_events ?t @ map OnSendPacket segs"
    and c: "concat (map tcp_data segs) = concat (sock_writeOnceEstablished s)"
    and st: "sock_state t' = ESTABLISHED"
    and k: "sock_onEstablishedCallbacks t' = sock_onEstablishedCallbacks ?t"
      "sock_writeOnceEstablished t' = sock_writeOnceEstablished ?t"
    by blast
  show ?thesis
    by (intro exI [of _ "t'\<lparr> sock_events := sock_events t' @
                      map EstablishedCallback (sock_onEstablishedCallbacks t') \<rparr>"] exI [of _ segs])
      (simp add: TcpSocket_priv_onEstablishedCallback_def w e c k st assms)
qed

lemma onEstablishedCallback_not_established:
  assumes "sock_state s \<noteq> ESTABLISHED"
  shows "TcpSocket_priv_onEstablishedCallback s =
     Returned (s\<lparr> sock_events := sock_events s @
                      map EstablishedCallback (sock_onEstablishedCallbacks s) \<rparr>)"
proof -
  let ?t = "s\<lparr> sock_writeOnceEstablished := [] \<rparr>"
  have "sock_state ?t \<noteq> ESTABLISHED" using assms by simp
  from writeAll_buffered [OF this, of "sock_writeOnceEstablished s"]
  show ?thesis by (simp add: TcpSocket_priv_onEstablishedCallback_def)
qed

lemma not_established_kept:
  assumes "sock_state s \<noteq> ESTABLISHED"
  shows "sock_state (TcpSocket_close s) \<noteq> ESTABLISHED"
    and "sock_state (socketOf (TcpSocket_listen s)) \<noteq> ESTABLISHED"
    and "sock_state (socketOf (TcpSocket_connect s)) \<noteq> ESTABLISHED"
    and "sock_state (socketOf (TcpSocket_write data s)) \<noteq> ESTABLISHED"
    and "sock_state (TcpSocket_onData c s) \<noteq> ESTABLISHED"
    and "sock_state (TcpSocket_onEstablished c s) \<noteq> ESTABLISHED"
    and "sock_state (TcpSocket_onClose c s) \<noteq> ESTABLISHED"
  using assms
  by (simp_all add: TcpSocket_close_def TcpSocket_priv_onCloseCallback_def TcpSocket_listen_def
      TcpSocket_connect_def TcpSocket_write_def TcpSocket_onData_def TcpSocket_onEstablished_def
      TcpSocket_onClose_def TcpSocket_priv_sendPacket_def Let_def)

text \<open>
  Claim C2, as amended. A socket enters ESTABLISHED only in \<open>process\<close> (no other method
  takes a socket from another state to ESTABLISHED), and there it calls no \<open>onEstablished\<close>
  callback and sends no buffered write: it sends at most acknowledgements without data, posts
  \<open>_onEstablishedCallback\<close> with \<open>setTimeout\<close> and leaves the buffer as it was. When the posted \<open>_onEstablishedCallback\<close> runs, it returns, and what it does depends on
  the state the socket has then. On a socket that is still ESTABLISHED it first sends every
  buffered write as TCP segments, in buffer order (their payloads concatenate to the buffered
  bytes), and only then calls the registered \<open>onEstablished\<close> callbacks, in registration
  order; the buffer is left empty. On a socket that has left ESTABLISHED in between (after a
  FIN or \<open>close()\<close>) it sends nothing, keeps the buffer and calls the callbacks all the same.
  In no case is a callback called before a buffered write is sent.
\<close>

theorem TcpSocket_onEstablishedCallback_order:
  "(sock_state s0 \<noteq> ESTABLISHED \<longrightarrow>
      sock_state (TcpSocket_close s0) \<noteq> ESTABLISHED \<and>
      sock_state (socketOf (TcpSocket_listen s0)) \<noteq> ESTABLISHED \<and>
      sock_state (socketOf (TcpSocket_connect s0)) \<noteq> ESTABLISHED \<and>
      sock_state (socketOf (TcpSocket_write data s0)) \<noteq> ESTABLISHED \<and>
      sock_state (TcpSocket_onData c s0) \<noteq> ESTABLISHED \<and>
      sock_state (TcpSocket_onEstablished c s0) \<noteq> ESTABLISHED \<and>
      sock_state (TcpSocket_onClose c s0) \<noteq> ESTABLISHED) \<and>
   (sock_state s0 \<noteq> ESTABLISHED \<and> sock_state (socketOf (TcpSocket_process p s0)) = ESTABLISHED \<longrightarrow>
      (\<exists>s1 acks. TcpSocket_process p s0 = Returned s1 \<and>
         sock_events s1 = sock_events s0 @ map OnSendPacket acks @ [SetTimeout_onEstablishedCallback] \<and>
         (\<forall>q\<in>set acks. tcp_data q = []) \<and>
         sock_writeOnceEstablished s1 = sock_writeOnceEstablished s0 \<and>
         sock_onEstablishedCallbacks s1 = sock_onEstablishedCallbacks s0)) \<and>
   (\<exists>s' segs.
      TcpSocket_priv_onEstablishedCallback s = Returned s' \<and>
      sock_events s' = sock_events s @ map OnSendPacket segs @
                         map EstablishedCallback (sock_onEstablishedCallbacks s) \<and>
      sock_state s' = sock_state s \<and>
      (sock_state s = ESTABLISHED \<longrightarrow>
         concat (map tcp_data segs) = concat (sock_writeOnceEstablished s) \<and>
         sock_writeOnceEstablished s' = []) \<and>
      (sock_state s \<noteq> ESTABLISHED \<longrightarrow>
         segs = [] \<and> sock_writeOnceEstablished s' = sock_writeOnceEstablished s))"
proof (intro conjI impI)
  assume "sock_state s0 \<noteq> ESTABLISHED"
  note kept = not_established_kept [OF this]
  show "sock_state (TcpSocket_close s0) \<noteq> ESTABLISHED" by (rule kept)
  show "sock_state (socketOf (TcpSocket_listen s0)) \<noteq> ESTABLISHED" by (rule kept)
  show "sock_state (socketOf (TcpSocket_connect s0)) \<noteq> ESTABLISHED" by (rule kept)
  show "sock_state (socketOf (TcpSocket_write data s0)) \<noteq> ESTABLISHED" by (rule kept)
  show "sock_state (TcpSocket_onData c s0) \<noteq> ESTABLISHED" by (rule kept)
  show "sock_state (TcpSocket_onEstablished c s0) \<noteq> ESTABLISHED" by (rule kept)
  show "sock_state (TcpSocket_onClose c s0) \<noteq> ESTABLISHED" by (rule kept)
next
  show "\<exists>s1 acks. TcpSocket_process p s0 = Returned s1 \<and>
         sock_events s1 = sock_events s0 @ map OnSendPacket acks @ [SetTimeout_onEstablishedCallback] \<and>
         (\<forall>q\<in>set acks. tcp_data q = []) \<and>
         sock_writeOnceEstablished s1 = sock_writeOnceEstablished s0 \<and>
         sock_onEstablishedCallbacks s1 = sock_onEstablishedCallbacks s0"
    if "sock_state s0 \<noteq> ESTABLISHED \<and> sock_state (socketOf (TcpSocket_process p s0)) = ESTABLISHED"
    using that process_enters_established by blast
  show "\<exists>s' segs.
      TcpSocket_priv_onEstablishedCallback s = Returned s' \<and>
      sock_events s' = sock_events s @ map OnSendPacket segs @
                         map EstablishedCallback (sock_onEstablishedCallbacks s) \<and>
      sock_state s' = sock_state s \<and>
      (sock_state s = ESTABLISHED \<longrightarrow>
         concat (map tcp_data segs) = concat (sock_writeOnceEstablished s) \<and>
         sock_writeOnceEstablished s' = []) \<and>
      (sock_state s \<noteq> ESTABLISHED \<longrightarrow>
         segs = [] \<and> sock_writeOnceEstablished s' = sock_writeOnceEstablished s)"
  proof (cases "sock_state s = ESTABLISHED")
    case True
    from onEstablishedCallback_established [OF True] True show ?thesis by auto
  next
    case False
    show ?thesis
      by (intro exI [of _ "s\<lparr> sock_events := sock_events s @
                      map EstablishedCallback (sock_onEstablishedCallbacks s) \<rparr>"] exI [of _ "[]"])
        (simp add: onEstablishedCallback_not_established [OF False] False)
  qed
qed

lemma exampleConnecting_fields:
  "sock_state exampleConnecting = SYN_SENT"
  "sock_writeOnceEstablished exampleConnecting = [[0x68, 0x65, 0x6c, 0x6c, 0x6f]]"
  "sock_onEstablishedCallbacks exampleConnecting = [7]"
  by (simp_all add: exampleConnecting_def TcpSocket_write_def
      TcpSocket_onEstablished_def TcpSocket_connect_def TcpSocket_priv_sendPacket_def
      exampleSocket_fields Let_def)

lemma exampleEstablished_fields:
  "sock_state exampleEstablished = ESTABLISHED"
  "sock_writeOnceEstablished exampleEstablished = [[0x68, 0x65, 0x6c, 0x6c, 0x6f]]"
  "sock_onEstablishedCallbacks exampleEstablished = [7]"
  "sock_seq exampleEstablished = 305419801"
  "sock_ack exampleEstablished = 5001"
  "length (sock_events exampleEstablished) = 3"
  by (simp_all add: exampleEstablished_def exampleConnecting_def TcpSocket_process_def
      TcpSocket_process_switch_def TcpSocket_process_acknowledge_def TcpSocket_write_def
      TcpSocket_onEstablished_def TcpSocket_connect_def TcpSocket_priv_sendPacket_def
      Ipv4Address_equals_def exampleSocket_fields examplePacket_def noFlags_def Let_def)

lemma exampleEstablished_callback_events:
  "drop 3 (sock_events (socketOf (TcpSocket_priv_onEstablishedCallback exampleEstablished))) =
     [OnSendPacket \<lparr> tcp_srcIp = Ipv4Address 192 168 13 37, tcp_destIp = Ipv4Address 192 168 0 1,
        tcp_srcPort = 12400, tcp_destPort = 5432, tcp_seq = 305419801, tcp_ack = 5001,
        tcp_flags = noFlags\<lparr> flag_ack := True \<rparr>,
        tcp_windowSize = None, tcp_urgentPointer = None, tcp_options = None,
        tcp_data = [0x68, 0x65, 0x6c, 0x6c, 0x6f] \<rparr>,
      EstablishedCallback 7]"
  by (simp add: TcpSocket_priv_onEstablishedCallback_def TcpSocket_write_loop.simps
      TcpSocket_priv_writeSinglePacket_def
      exampleEstablished_def exampleConnecting_def TcpSocket_process_def
      TcpSocket_process_switch_def TcpSocket_process_acknowledge_def TcpSocket_write_def
      TcpSocket_onEstablished_def TcpSocket_connect_def TcpSocket_priv_sendPacket_def
      Ipv4Address_equals_def exampleSocket_fields examplePacket_def noFlags_def Let_def)

theorem TcpSocket_onEstablishedCallback_order_counterexample:
  "\<not> (\<forall>s. sock_state s = ESTABLISHED \<and> sock_writeOnceEstablished s \<noteq> [] \<longrightarrow>
        callbacksBeforeSegments
          (drop (length (sock_events s))
             (sock_events (socketOf (TcpSocket_priv_onEstablishedCallback s)))))"
proof
  assume "\<forall>s. sock_state s = ESTABLISHED \<and> sock_writeOnceEstablished s \<noteq> [] \<longrightarrow>
        callbacksBeforeSegments
          (drop (length (sock_events s))
             (sock_events (socketOf (TcpSocket_priv_onEstablishedCallback s))))"
  moreover have "sock_state exampleEstablished = ESTABLISHED \<and>
      sock_writeOnceEstablished exampleEstablished \<noteq> []"
    by (simp add: exampleEstablished_fields)
  ultimately have "callbacksBeforeSegments
          (drop (length (sock_events exampleEstablished))
             (sock_events (socketOf (TcpSocket_priv_onEstablishedCallback exampleEstablished))))"
    by blast
  then show False
    by (simp add: exampleEstablished_fields exampleEstablished_callback_events)
qed

lemma exampleClosedBeforeTick_fields:
  "sock_state exampleClosedBeforeTick = CLOSED"
  "sock_writeOnceEstablished exampleClosedBeforeTick = [[0x68, 0x65, 0x6c, 0x6c, 0x6f]]"
  "sock_onEstablishedCallbacks exampleClosedBeforeTick = [7]"
  "sock_events exampleClosedBeforeTick = sock_events exampleEstablished"
proof -
  have srcIp: "sock_srcIp exampleEstablished = Ipv4Address 192 168 13 37"
    and srcPort: "sock_srcPort exampleEstablished = 12400"
    and cl: "sock_onCloseCallbacks exampleEstablished = []"
    by (simp_all add: exampleEstablished_def exampleConnecting_def TcpSocket_process_def
      TcpSocket_process_switch_def TcpSocket_process_acknowledge_def TcpSocket_write_def
      TcpSocket_onEstablished_def TcpSocket_connect_def TcpSocket_priv_sendPacket_def
      Ipv4Address_equals_def exampleSocket_fields examplePacket_def noFlags_def Let_def)
  have eq: "exampleClosedBeforeTick = TcpSocket_close exampleEstablished"
    by (simp add: exampleClosedBeforeTick_def TcpSocket_process_def exampleEstablished_fields
        srcIp srcPort examplePacket_def Ipv4Address_equals_def noFlags_def)
  show "sock_state exampleClosedBeforeTick = CLOSED"
    "sock_writeOnceEstablished exampleClosedBeforeTick = [[0x68, 0x65, 0x6c, 0x6c, 0x6f]]"
    "sock_onEstablishedCallbacks exampleClosedBeforeTick = [7]"
    "sock_events exampleClosedBeforeTick = sock_events exampleEstablished"
    unfolding eq
    by (simp_all add: TcpSocket_close_def TcpSocket_priv_onCloseCallback_def
        exampleEstablished_fields cl)
qed

theorem TcpSocket_onEstablishedCallback_order_witness:
  "sock_state (TcpSocket_close exampleConnecting) \<noteq> ESTABLISHED \<and>
   sock_state (socketOf (TcpSocket_write [0x21] exampleConnecting)) \<noteq> ESTABLISHED \<and>
   (\<exists>s1 acks. TcpSocket_process
         (examplePacket (noFlags\<lparr> flag_syn := True, flag_ack := True \<rparr>) 5000 305419801 [])
         exampleConnecting = Returned s1 \<and>
      sock_events s1 = sock_events exampleConnecting @ map OnSendPacket acks @
                         [SetTimeout_onEstablishedCallback] \<and>
      sock_writeOnceEstablished s1 = [[0x68, 0x65, 0x6c, 0x6c, 0x6f]]) \<and>
   (\<exists>s' segs.
      TcpSocket_priv_onEstablishedCallback exampleEstablished = Returned s' \<and>
      sock_events s' = sock_events exampleEstablished @ map OnSendPacket segs @
                         [EstablishedCallback 7] \<and>
      concat (map tcp_data segs) = [0x68, 0x65, 0x6c, 0x6c, 0x6f] \<and>
      sock_writeOnceEstablished s' = []) \<and>
   (\<exists>s'.
      TcpSocket_priv_onEstablishedCallback exampleClosedBeforeTick = Returned s' \<and>
      sock_events s' = sock_events exampleClosedBeforeTick @ [EstablishedCallback 7] \<and>
      sock_writeOnceEstablished s' = [[0x68, 0x65, 0x6c, 0x6c, 0x6f]])"
proof (intro conjI)
  from TcpSocket_onEstablishedCallback_order [of exampleConnecting "[0x21]" 0 "examplePacket noFlags 0 0 []" exampleEstablished]
  show "sock_state (TcpSocket_close exampleConnecting) \<noteq> ESTABLISHED"
    "sock_state (socketOf (TcpSocket_write [0x21] exampleConnecting)) \<noteq> ESTABLISHED"
    by (simp_all add: exampleConnecting_fields)
next
  let ?p = "examplePacket (noFlags\<lparr> flag_syn := True, flag_ack := True \<rparr>) 5000 305419801 []"
  have "sock_state exampleConnecting \<noteq> ESTABLISHED \<and>
      sock_state (socketOf (TcpSocket_process ?p exampleConnecting)) = ESTABLISHED"
    using exampleEstablished_fields(1) by (simp add: exampleConnecting_fields exampleEstablished_def)
  with TcpSocket_onEstablishedCallback_order [of exampleConnecting "[0x21]" 0 ?p exampleEstablished]
  show "\<exists>s1 acks. TcpSocket_process ?p exampleConnecting = Returned s1 \<and>
      sock_events s1 = sock_events exampleConnecting @ map OnSendPacket acks @
                         [SetTimeout_onEstablishedCallback] \<and>
      sock_writeOnceEstablished s1 = [[0x68, 0x65, 0x6c, 0x6c, 0x6f]]"
    by (auto simp: exampleConnecting_fields)
  from TcpSocket_onEstablishedCallback_order [of exampleConnecting "[0x21]" 0 ?p exampleEstablished]
  show "\<exists>s' segs.
      TcpSocket_priv_onEstablishedCallback exampleEstablished = Returned s' \<and>
      sock_events s' = sock_events exampleEstablished @ map OnSendPacket segs @
                         [EstablishedCallback 7] \<and>
      concat (map tcp_data segs) = [0x68, 0x65, 0x6c, 0x6c, 0x6f] \<and>
      sock_writeOnceEstablished s' = []"
    by (auto simp: exampleEstablished_fields)
  from TcpSocket_onEstablishedCallback_order [of exampleConnecting "[0x21]" 0 ?p exampleClosedBeforeTick]
  show "\<exists>s'.
      TcpSocket_priv_onEstablishedCallback exampleClosedBeforeTick = Returned s' \<and>
      sock_events s' = sock_events exampleClosedBeforeTick @ [EstablishedCallback 7] \<and>
      sock_writeOnceEstablished s' = [[0x68, 0x65, 0x6c, 0x6c, 0x6f]]"
    by (auto simp: exampleClosedBeforeTick_fields)
qed

subsection \<open>The dispatch of inbound data to the hooks of a layer\<close>







end
